theory Spec2Isabelle
  imports Main "HOL-Library.Log_Nat"
begin

section \<open>JavaScript numbers\<close>

text \<open>
  A JavaScript \<^verbatim>\<open>number\<close> is an IEEE 754 binary64 value. The finite ones are
  kept as the exact rational they denote; negative zero is identified with zero
  (the program only compares, multiplies, takes remainders of and prints its
  numbers, and none of these tells the two zeros apart, except a division by
  zero, which the program never performs).
\<close>

datatype jsnum = NaN | NegInf | PosInf | Fin rat

text \<open>Round to the nearest integer, ties to the even one.\<close>

definition rne :: "rat \<Rightarrow> int" where
  "rne q = (let f = \<lfloor>q\<rfloor>; r = q - of_int f in
     if r < 1/2 then f else if 1/2 < r then f + 1 else if even f then f else f + 1)"

text \<open>The binary exponent of a positive rational: \<open>2 ^ ilog2 a \<le> a < 2 ^ (ilog2 a + 1)\<close>.\<close>

definition ilog2 :: "rat \<Rightarrow> int" where
  "ilog2 a = (case quotient_of a of (p, q) \<Rightarrow>
      let d = bitlen p - bitlen q in if 2 powi d \<le> a then d else d - 1)"

text \<open>
  The binary64 rounding of an exact result: 53 significant bits, round to nearest
  with ties to even, gradual underflow below \<open>2 ^ -1022\<close>, overflow to an infinity.
\<close>

definition round64 :: "rat \<Rightarrow> jsnum" where
  "round64 x = (if x = 0 then Fin 0 else
     let a = \<bar>x\<bar>; e = max (ilog2 a - 52) (- 1074);
         y = of_int (rne (a / 2 powi e)) * 2 powi e
     in if 2 powi 1024 \<le> y then (if 0 < x then PosInf else NegInf)
        else Fin (if 0 < x then y else - y))"

text \<open>A decimal literal of the source, and \<^verbatim>\<open>parseFloat\<close> of a decimal string, denote the nearest double.\<close>

definition js_lit :: "rat \<Rightarrow> jsnum" where
  "js_lit q = round64 q"

fun js_neg :: "jsnum \<Rightarrow> jsnum" where
  "js_neg NaN = NaN"
| "js_neg NegInf = PosInf"
| "js_neg PosInf = NegInf"
| "js_neg (Fin a) = Fin (- a)"

fun js_add :: "jsnum \<Rightarrow> jsnum \<Rightarrow> jsnum" where
  "js_add (Fin a) (Fin b) = round64 (a + b)"
| "js_add NaN _ = NaN"
| "js_add _ NaN = NaN"
| "js_add PosInf NegInf = NaN"
| "js_add NegInf PosInf = NaN"
| "js_add PosInf _ = PosInf"
| "js_add _ PosInf = PosInf"
| "js_add NegInf _ = NegInf"
| "js_add _ NegInf = NegInf"

definition js_sub :: "jsnum \<Rightarrow> jsnum \<Rightarrow> jsnum" where
  "js_sub a b = js_add a (js_neg b)"

text \<open>The sign of a number that is neither NaN nor zero: \<open>True\<close> for negative.\<close>

fun js_negative :: "jsnum \<Rightarrow> bool" where
  "js_negative NegInf = True"
| "js_negative (Fin a) = (a < 0)"
| "js_negative _ = False"

fun js_mul :: "jsnum \<Rightarrow> jsnum \<Rightarrow> jsnum" where
  "js_mul (Fin a) (Fin b) = round64 (a * b)"
| "js_mul a b =
     (if a = NaN \<or> b = NaN \<or> a = Fin 0 \<or> b = Fin 0 then NaN
      else if js_negative a = js_negative b then PosInf else NegInf)"

text \<open>
  Division. A finite non-zero number divided by zero is an infinity whose sign also
  depends on the sign of the zero; the zero is taken as positive here.
\<close>

fun js_div :: "jsnum \<Rightarrow> jsnum \<Rightarrow> jsnum" where
  "js_div (Fin a) (Fin b) =
     (if b = 0 then (if a = 0 then NaN else if 0 < a then PosInf else NegInf)
      else round64 (a / b))"
| "js_div (Fin a) PosInf = Fin 0"
| "js_div (Fin a) NegInf = Fin 0"
| "js_div a (Fin b) =
     (if a = NaN then NaN else if js_negative a = (b < 0) then PosInf else NegInf)"
| "js_div _ _ = NaN"

text \<open>The integer part of a rational, rounding towards zero.\<close>

definition trunc :: "rat \<Rightarrow> int" where
  "trunc q = (if 0 \<le> q then \<lfloor>q\<rfloor> else \<lceil>q\<rceil>)"

text \<open>
  The remainder operator \<^verbatim>\<open>%\<close>: the result has the sign of the dividend and is
  exact (no rounding takes place).
\<close>

fun js_rem :: "jsnum \<Rightarrow> jsnum \<Rightarrow> jsnum" where
  "js_rem (Fin a) (Fin b) = (if b = 0 then NaN else Fin (a - b * of_int (trunc (a / b))))"
| "js_rem (Fin a) PosInf = Fin a"
| "js_rem (Fin a) NegInf = Fin a"
| "js_rem _ _ = NaN"

fun js_floor :: "jsnum \<Rightarrow> jsnum" where
  "js_floor (Fin a) = Fin (of_int \<lfloor>a\<rfloor>)"
| "js_floor a = a"

fun js_lt :: "jsnum \<Rightarrow> jsnum \<Rightarrow> bool" where
  "js_lt (Fin a) (Fin b) = (a < b)"
| "js_lt NaN _ = False"
| "js_lt _ NaN = False"
| "js_lt NegInf b = (b \<noteq> NegInf)"
| "js_lt a PosInf = (a \<noteq> PosInf)"
| "js_lt _ _ = False"

definition js_gt :: "jsnum \<Rightarrow> jsnum \<Rightarrow> bool" where
  "js_gt a b = js_lt b a"

text \<open>Strict equality \<^verbatim>\<open>===\<close> and inequality \<^verbatim>\<open>!==\<close> of two numbers.\<close>

definition js_seq :: "jsnum \<Rightarrow> jsnum \<Rightarrow> bool" where
  "js_seq a b = (a = b \<and> a \<noteq> NaN)"

definition js_sne :: "jsnum \<Rightarrow> jsnum \<Rightarrow> bool" where
  "js_sne a b = (\<not> js_seq a b)"

section \<open>Trade positions and the contract evaluator\<close>

record TradePosition =
  id :: string
  contractId :: string
  contractType :: string
  symbol :: string
  entryPrice :: jsnum
  entryTime :: jsnum
  stake :: jsnum
  payout :: jsnum
  prediction :: string
  barrier :: "jsnum option"
  duration :: jsnum
  durationType :: string
  status :: string
  currentPrice :: "jsnum option"
  isWinning :: "bool option"

text \<open>\<^verbatim>\<open>Math.floor((price * 10000) % 10)\<close>, the digit of the barrier contracts.\<close>

definition lastDigit :: "jsnum \<Rightarrow> jsnum" where
  "lastDigit price = js_floor (js_rem (js_mul price (Fin 10000)) (Fin 10))"

definition calculateIsWinning :: "TradePosition \<Rightarrow> jsnum \<Rightarrow> bool" where
  "calculateIsWinning trade price =
    (if prediction trade = ''RISE'' \<or> prediction trade = ''HIGHER'' then
       js_gt price (entryPrice trade)
     else if prediction trade = ''FALL'' \<or> prediction trade = ''LOWER'' then
       js_lt price (entryPrice trade)
     else if prediction trade = ''OVER'' then
       (case barrier trade of Some b \<Rightarrow> js_gt (lastDigit price) b | None \<Rightarrow> False)
     else if prediction trade = ''UNDER'' then
       (case barrier trade of Some b \<Rightarrow> js_lt (lastDigit price) b | None \<Rightarrow> False)
     else if prediction trade = ''EVEN'' then
       js_seq (js_rem (lastDigit price) (Fin 2)) (Fin 0)
     else if prediction trade = ''ODD'' then
       js_seq (js_rem (lastDigit price) (Fin 2)) (Fin 1)
     else if prediction trade = ''MATCHES'' then
       (case barrier trade of Some b \<Rightarrow> js_seq (lastDigit price) b | None \<Rightarrow> False)
     else if prediction trade = ''DIFFERS'' then
       (case barrier trade of Some b \<Rightarrow> js_sne (lastDigit price) b | None \<Rightarrow> False)
     else False)"

text \<open>
  The update of one trade on a new price (the body of \<^verbatim>\<open>trades.map\<close> in the effect of
  \<^verbatim>\<open>TradeIndicators\<close>): an open trade gets the price and the recomputed flag.
\<close>

definition updatedTrade :: "TradePosition \<Rightarrow> jsnum \<Rightarrow> TradePosition" where
  "updatedTrade trade price =
    (if status trade = ''OPEN'' then
       trade\<lparr>currentPrice := Some price, isWinning := Some (calculateIsWinning trade price)\<rparr>
     else trade)"

text \<open>An absent \<^verbatim>\<open>isWinning\<close> is falsy.\<close>

definition getTradeProfit :: "TradePosition \<Rightarrow> jsnum" where
  "getTradeProfit trade =
    (if status trade = ''OPEN'' then
       (if isWinning trade = Some True then js_sub (payout trade) (stake trade)
        else js_neg (stake trade))
     else if status trade = ''WON'' then js_sub (payout trade) (stake trade)
     else js_neg (stake trade))"

text \<open>
  The winning table of section 4.3 of the specification, over the same scaled digit.
  A digit is one of 0 to 9, so the odd digits are 1, 3, 5, 7 and 9; a number is even
  when it is a whole number divisible by two, which for a digit means 0, 2, 4, 6 or 8.
\<close>

definition is_even_digit :: "jsnum \<Rightarrow> bool" where
  "is_even_digit d = (case d of Fin q \<Rightarrow> q = of_int \<lfloor>q\<rfloor> \<and> even \<lfloor>q\<rfloor> | _ \<Rightarrow> False)"

definition is_odd_digit :: "jsnum \<Rightarrow> bool" where
  "is_odd_digit d = (d = Fin 1 \<or> d = Fin 3 \<or> d = Fin 5 \<or> d = Fin 7 \<or> d = Fin 9)"


text \<open>A position with the given contract kind, barrier and entry price.\<close>

definition position :: "string \<Rightarrow> jsnum option \<Rightarrow> jsnum \<Rightarrow> TradePosition" where
  "position kind b entry =
    \<lparr>id = ''t1'', contractId = ''c1'', contractType = ''DIGIT'', symbol = ''R_10'',
     entryPrice = entry, entryTime = Fin 0, stake = Fin 10, payout = Fin 19,
     prediction = kind, barrier = b, duration = Fin 5, durationType = ''ticks'',
     status = ''OPEN'', currentPrice = None, isWinning = None\<rparr>"

section \<open>Strings to numbers\<close>

text \<open>
  \<^verbatim>\<open>parseInt(string)\<close> with no radix: leading white space is skipped, a sign is read, a
  prefix \<^verbatim>\<open>0x\<close> selects radix 16 (radix 10 otherwise), and the longest prefix of digits
  of that radix is the value; no digit at all gives NaN. The value is rounded to a double.
  A string is a list of characters with codes below 256; the white space and line
  terminators of the language among them are TAB, LF, VT, FF, CR, SP and NBSP (160).
\<close>

definition is_ws :: "char \<Rightarrow> bool" where
  "is_ws c = (of_char c \<in> {9, 10, 11, 12, 13, 32, 160 :: nat})"

definition digit_of_char :: "nat \<Rightarrow> char \<Rightarrow> nat option" where
  "digit_of_char radix c =
    (let n = (of_char c :: nat);
         v = (if 48 \<le> n \<and> n \<le> 57 then Some (n - 48)
              else if 97 \<le> n \<and> n \<le> 122 then Some (n - 87)
              else if 65 \<le> n \<and> n \<le> 90 then Some (n - 55)
              else None)
     in case v of Some d \<Rightarrow> if d < radix then Some d else None | None \<Rightarrow> None)"

definition digits_value :: "nat \<Rightarrow> string \<Rightarrow> nat" where
  "digits_value radix z = foldl (\<lambda>acc c. acc * radix + the (digit_of_char radix c)) 0 z"

definition parseInt :: "string \<Rightarrow> jsnum" where
  "parseInt str =
    (let s = dropWhile is_ws str;
         neg = (s \<noteq> [] \<and> hd s = CHR ''-'');
         s1 = (if s \<noteq> [] \<and> (hd s = CHR ''-'' \<or> hd s = CHR ''+'') then tl s else s);
         hex = (2 \<le> length s1 \<and> (take 2 s1 = ''0x'' \<or> take 2 s1 = ''0X''));
         radix = (if hex then 16 else 10);
         s2 = (if hex then drop 2 s1 else s1);
         z = takeWhile (\<lambda>c. digit_of_char radix c \<noteq> None) s2
     in if z = [] then NaN
        else round64 (of_int ((if neg then - 1 else 1) * int (digits_value radix z))))"

text \<open>A number is falsy when it is NaN or zero; \<^verbatim>\<open>a || b\<close> on numbers.\<close>

definition js_or :: "jsnum \<Rightarrow> jsnum \<Rightarrow> jsnum" where
  "js_or a b = (if a = NaN \<or> a = Fin 0 then b else a)"

section \<open>Numbers to strings\<close>

text \<open>
  \<^verbatim>\<open>Number.prototype.toString()\<close> with no radix, as the language defines it
  (\<^verbatim>\<open>Number::toString\<close>): for a positive finite number \<open>a\<close> take integers \<open>n\<close>, \<open>k\<close> and
  \<open>s\<close> with \<open>k\<close> as small as possible such that \<open>s\<close> has \<open>k\<close> decimal digits and
  \<open>s * 10 ^ (n - k)\<close> rounds to \<open>a\<close>, the \<open>s\<close> nearest to \<open>a\<close> when there are several; then
  write the digits of \<open>s\<close> in positional notation when \<open>-6 < n \<le> 21\<close> and in exponent
  notation otherwise.
\<close>

definition digit_char :: "int \<Rightarrow> char" where
  "digit_char d = ''0123456789'' ! nat d"

text \<open>The decimal digits of an integer that is not negative.\<close>

function decimal :: "int \<Rightarrow> string" where
  "decimal n = (if n < 10 then [digit_char n] else decimal (n div 10) @ [digit_char (n mod 10)])"
  by pat_completeness auto
termination by (relation "measure nat") auto

declare decimal.simps [simp del]

text \<open>The decimal exponent \<open>n\<close> of a positive rational: \<open>10 ^ (n - 1) \<le> a < 10 ^ n\<close>.\<close>

definition decimal_exponent :: "rat \<Rightarrow> int" where
  "decimal_exponent a =
     (if 1 \<le> a then int (length (decimal \<lfloor>a\<rfloor>))
      else 1 - int (length (decimal (\<lceil>1 / a\<rceil> - 1))))"

text \<open>
  The \<open>k\<close>-digit candidates for \<open>a\<close> are its two neighbours among the multiples of
  \<open>10 ^ (n - k)\<close>; the nearer one that rounds to \<open>a\<close> is taken (the even one on a tie).
\<close>

definition digits_at :: "rat \<Rightarrow> int \<Rightarrow> nat \<Rightarrow> int option" where
  "digits_at a n k =
     (let e = n - int k; lo = \<lfloor>a / 10 powi e\<rfloor>; hi = lo + 1;
          okl = (round64 (of_int lo * 10 powi e) = Fin a);
          okh = (round64 (of_int hi * 10 powi e) = Fin a);
          dl = a - of_int lo * 10 powi e; dh = of_int hi * 10 powi e - a
      in if okl \<and> (\<not> okh \<or> dl < dh \<or> (dl = dh \<and> even lo)) then Some lo
         else if okh then Some hi else None)"

text \<open>
  The shortest digits \<open>(s, k, n)\<close>. Seventeen digits identify every double, so the search
  stops there; an upper neighbour \<open>10 ^ k\<close> is the single digit 1 of the next decade.
\<close>

definition shortest_digits :: "rat \<Rightarrow> int \<times> nat \<times> int" where
  "shortest_digits a =
     (let n = decimal_exponent a in
      case List.find (\<lambda>k. digits_at a n k \<noteq> None) [1..<18] of
        Some k \<Rightarrow> (let s = the (digits_at a n k) in if s = 10 ^ k then (1, 1, n + 1) else (s, k, n))
      | None \<Rightarrow> (rne (a / 10 powi (n - 17)), 17, n))"

definition positive_toString :: "rat \<Rightarrow> string" where
  "positive_toString a =
     (case shortest_digits a of (s, k, n) \<Rightarrow>
        let ds = decimal s in
        if int k \<le> n \<and> n \<le> 21 then ds @ replicate (nat (n - int k)) (CHR ''0'')
        else if 0 < n \<and> n \<le> 21 then take (nat n) ds @ ''.'' @ drop (nat n) ds
        else if - 6 < n \<and> n \<le> 0 then ''0.'' @ replicate (nat (- n)) (CHR ''0'') @ ds
        else let exponentSign = (if n < 0 then ''-'' else ''+'');
                 ex = ''e'' @ exponentSign @ decimal \<bar>n - 1\<bar>
             in if k = 1 then ds @ ex else take 1 ds @ ''.'' @ drop 1 ds @ ex)"

fun numberToString :: "jsnum \<Rightarrow> string" where
  "numberToString NaN = ''NaN''"
| "numberToString PosInf = ''Infinity''"
| "numberToString NegInf = ''-Infinity''"
| "numberToString (Fin a) =
     (if a = 0 then ''0'' else if a < 0 then ''-'' @ positive_toString (- a)
      else positive_toString a)"

section \<open>The digit extractor\<close>

text \<open>
  \<^verbatim>\<open>priceStr.charAt(priceStr.length - 1)\<close>: the last character as a string, the empty
  string when there is none.
\<close>

definition lastChar :: "string \<Rightarrow> string" where
  "lastChar priceStr = (if priceStr = [] then [] else [last priceStr])"

definition extractDigit :: "jsnum \<Rightarrow> jsnum" where
  "extractDigit price =
     (let priceStr = numberToString price;
          lastChar = lastChar priceStr
      in js_or (parseInt lastChar) (Fin 0))"

text \<open>
  The digit extractor as the specification words it: the last character of the decimal
  string read as an integer 0 to 9, and 0 when that character is not a digit.
\<close>

definition last_character_digit :: "string \<Rightarrow> nat" where
  "last_character_digit str =
     (if str \<noteq> [] \<and> 48 \<le> (of_char (last str) :: nat) \<and> (of_char (last str) :: nat) \<le> 57
      then of_char (last str) - 48 else 0)"

section \<open>The tick window and the digit statistics\<close>

record TickData =
  digit :: nat
  price :: jsnum
  timestamp :: jsnum

record DigitStats =
  stat_digit :: nat
  count :: nat
  percentage :: jsnum
  isHighest :: bool
  is2ndHighest :: bool
  isLowest :: bool
  is2ndLowest :: bool

text \<open>
  \<^verbatim>\<open>array.slice(0, end)\<close>: the end is truncated to an integer (NaN counts as 0), a
  negative end counts from the end of the array, and the result is cut to the array.
\<close>

definition slice0 :: "'a list \<Rightarrow> jsnum \<Rightarrow> 'a list" where
  "slice0 xs end =
    (case end of
       NaN \<Rightarrow> []
     | NegInf \<Rightarrow> []
     | PosInf \<Rightarrow> xs
     | Fin e \<Rightarrow>
         (let rel = trunc e; len = int (length xs);
              final = (if rel < 0 then max (len + rel) 0 else min rel len)
          in take (nat final) xs))"

text \<open>The handler of the TICKS input: \<^verbatim>\<open>setTickCount(parseInt(e.target.value) || 1000)\<close>.\<close>

definition ticksInputChange :: "string \<Rightarrow> jsnum" where
  "ticksInputChange v = js_or (parseInt v) (Fin 1000)"

text \<open>The initial \<^verbatim>\<open>tickCount\<close> state, also restored by the reset button.\<close>

definition initialTickCount :: jsnum where
  "initialTickCount = Fin 1000"

text \<open>The two state updaters of \<open>handleTickData\<close>.\<close>

definition updateRecentTicks :: "nat \<Rightarrow> nat list \<Rightarrow> nat list" where
  "updateRecentTicks d prev = slice0 (d # prev) (Fin 20)"

definition updateTickHistory :: "jsnum \<Rightarrow> TickData \<Rightarrow> TickData list \<Rightarrow> TickData list" where
  "updateTickHistory tickCount newTick prev = slice0 (newTick # prev) tickCount"

text \<open>
  \<^verbatim>\<open>parseFloat(x.toFixed(1))\<close>. For a finite \<open>x\<close> below \<open>10 ^ 21\<close> in magnitude,
  \<^verbatim>\<open>toFixed(1)\<close> prints \<open>n / 10\<close> for the integer \<open>n\<close> nearest to \<open>10 * x\<close>, the larger one
  at a tie (the sign is printed apart), and \<^verbatim>\<open>parseFloat\<close> reads the nearest double back.
  Other numbers are printed as by \<^verbatim>\<open>toString\<close> and read back unchanged.
\<close>

definition toFixed1 :: "rat \<Rightarrow> rat" where
  "toFixed1 x = (if 0 \<le> x then of_int \<lfloor>x * 10 + 1/2\<rfloor> / 10
                 else - (of_int \<lfloor>- x * 10 + 1/2\<rfloor> / 10))"

definition parseFloat_toFixed1 :: "jsnum \<Rightarrow> jsnum" where
  "parseFloat_toFixed1 x =
    (case x of Fin q \<Rightarrow> if \<bar>q\<bar> < 10 ^ 21 then js_lit (toFixed1 q) else Fin q | _ \<Rightarrow> x)"

text \<open>
  The market filter of \<open>calculateDigitStats\<close>: for Matches a tick is kept when it is not
  the first and its digit equals the digit of the tick before it in the array; for
  Differs when it is not the first and the digits differ; otherwise every tick is kept.
\<close>

definition filteredTicks :: "string \<Rightarrow> TickData list \<Rightarrow> TickData list" where
  "filteredTicks selectedMarket ticks =
    (if selectedMarket = ''Matches'' then
       map snd (filter (\<lambda>(prev, tick). digit tick = digit prev) (zip ticks (tl ticks)))
     else if selectedMarket = ''Differs'' then
       map snd (filter (\<lambda>(prev, tick). digit tick \<noteq> digit prev) (zip ticks (tl ticks)))
     else ticks)"

text \<open>
  \<^verbatim>\<open>digitCounts[tick.digit]++\<close> over the filtered ticks, from ten zeros. A tick is built
  from \<open>extractDigit\<close>, so its digit is one of 0 to 9; a count outside the ten slots is
  not represented.
\<close>

definition digitCounts :: "TickData list \<Rightarrow> nat list" where
  "digitCounts filtered =
    foldl (\<lambda>counts tick. counts[digit tick := counts ! digit tick + 1]) (replicate 10 0) filtered"

text \<open>\<^verbatim>\<open>filteredTicks.length || 1\<close>\<close>

definition totalCount :: "TickData list \<Rightarrow> nat" where
  "totalCount filtered = (if length filtered = 0 then 1 else length filtered)"

definition percentageOf :: "nat \<Rightarrow> nat \<Rightarrow> jsnum" where
  "percentageOf c n =
    parseFloat_toFixed1 (js_mul (js_div (Fin (of_nat c)) (Fin (of_nat n))) (Fin 100))"

definition newStat :: "nat \<Rightarrow> nat \<Rightarrow> jsnum \<Rightarrow> DigitStats" where
  "newStat d c p =
    \<lparr>stat_digit = d, count = c, percentage = p, isHighest = False, is2ndHighest = False,
     isLowest = False, is2ndLowest = False\<rparr>"

text \<open>The statistics before any rank is marked: \<^verbatim>\<open>digitCounts.map(...)\<close>.\<close>

definition unrankedStats :: "nat list \<Rightarrow> nat \<Rightarrow> DigitStats list" where
  "unrankedStats counts n =
    map (\<lambda>(c, d). newStat d c (percentageOf c n)) (zip counts [0..<length counts])"

text \<open>
  \<^verbatim>\<open>[...stats].sort(compare)\<close>. The copy is shallow: it holds the same objects as
  \<open>stats\<close>, so an object is named by its index in \<open>stats\<close> and the sorted copy is a list of
  such indices. \<^verbatim>\<open>Array.prototype.sort\<close> is specified to be stable (ECMAScript 2019): an
  element moves behind another one only when the comparison function puts it there.
\<close>

fun insert_by :: "('a \<Rightarrow> 'a \<Rightarrow> jsnum) \<Rightarrow> 'a \<Rightarrow> 'a list \<Rightarrow> 'a list" where
  "insert_by cmp x [] = [x]"
| "insert_by cmp x (y # ys) =
     (if js_gt (cmp x y) (Fin 0) then y # insert_by cmp x ys else x # y # ys)"

definition sort_by :: "('a \<Rightarrow> 'a \<Rightarrow> jsnum) \<Rightarrow> 'a list \<Rightarrow> 'a list" where
  "sort_by cmp xs = foldr (insert_by cmp) xs []"

text \<open>\<^verbatim>\<open>(a, b) => b.percentage - a.percentage\<close> and \<^verbatim>\<open>(a, b) => a.percentage - b.percentage\<close>\<close>

definition byPercentageDesc :: "DigitStats list \<Rightarrow> nat \<Rightarrow> nat \<Rightarrow> jsnum" where
  "byPercentageDesc stats a b = js_sub (percentage (stats ! b)) (percentage (stats ! a))"

definition byPercentageAsc :: "DigitStats list \<Rightarrow> nat \<Rightarrow> nat \<Rightarrow> jsnum" where
  "byPercentageAsc stats a b = js_sub (percentage (stats ! a)) (percentage (stats ! b))"

definition sortedByPercentage :: "DigitStats list \<Rightarrow> nat list" where
  "sortedByPercentage stats = sort_by (byPercentageDesc stats) [0..<length stats]"

definition sortedAsc :: "DigitStats list \<Rightarrow> nat list" where
  "sortedAsc stats = sort_by (byPercentageAsc stats) [0..<length stats]"

text \<open>\<^verbatim>\<open>if (sorted[i]) sorted[i].flag = true\<close>: the object at position \<open>i\<close> of a sorted copy,
  when there is one, is updated in place.\<close>

definition mark :: "nat list \<Rightarrow> nat \<Rightarrow> (DigitStats \<Rightarrow> DigitStats) \<Rightarrow> DigitStats list \<Rightarrow> DigitStats list" where
  "mark refs i f stats =
    (if i < length refs then stats[refs ! i := f (stats ! (refs ! i))] else stats)"

definition markRanks :: "DigitStats list \<Rightarrow> DigitStats list" where
  "markRanks stats =
    (let byPct = sortedByPercentage stats;
         s1 = mark byPct 0 (\<lambda>s. s\<lparr>isHighest := True\<rparr>) stats;
         s2 = mark byPct 1 (\<lambda>s. s\<lparr>is2ndHighest := True\<rparr>) s1;
         asc = sortedAsc s2;
         s3 = mark asc 0 (\<lambda>s. s\<lparr>isLowest := True\<rparr>) s2;
         s4 = mark asc 1 (\<lambda>s. s\<lparr>is2ndLowest := True\<rparr>) s3
     in s4)"

definition calculateDigitStats :: "string \<Rightarrow> TickData list \<Rightarrow> DigitStats list" where
  "calculateDigitStats selectedMarket ticks =
    (if length ticks = 0 then map (\<lambda>i. newStat i 0 (Fin 0)) [0..<10]
     else
       let filtered = filteredTicks selectedMarket ticks;
           counts = digitCounts filtered;
           n = totalCount filtered
       in markRanks (unrankedStats counts n))"

section \<open>The feed client\<close>

text \<open>
  \<open>DAnalysisAPI\<close>: one WebSocket, a map from request ids to callbacks, and the
  reconnection counters. The client is single threaded and event driven; the model is
  the state of the object together with what it has handed to its environment (the
  messages sent, the timers set, the promises returned), and one function for each
  method and each event handler. An error is the message of the \<^verbatim>\<open>Error\<close> object.
\<close>

datatype js_error = Error string

datatype ready_state = CONNECTING | OPEN | CLOSING | CLOSED

text \<open>
  The callbacks stored in \<open>subscriptions\<close>: the closure that \<open>getTicksHistory\<close> creates
  for the promise it returns (it deletes its request id and resolves that promise), or a
  callback of the caller of \<open>subscribeToTicks\<close>, named by a number.
\<close>

datatype callback = HistoryCallback nat string | TickCallback nat

text \<open>The callbacks given to \<^verbatim>\<open>setTimeout\<close>: \<open>connect\<close>, or the timeout of a history request.\<close>

datatype timer = Reconnect | HistoryTimeout nat string

datatype request =
    TicksHistory string jsnum string
  | TicksSubscribe string string
  | ForgetAll

text \<open>
  An inbound message: text that \<^verbatim>\<open>JSON.parse\<close> rejects, or data. Of the data the handler
  reads whether \<^verbatim>\<open>data.tick\<close> is present, and then the text of \<^verbatim>\<open>data.tick.symbol\<close>, and
  whether \<^verbatim>\<open>data.history\<close> is present, and then the text of
  \<^verbatim>\<open>data.echo_req?.ticks_history\<close> (the text \<^verbatim>\<open>undefined\<close> when absent).
\<close>

datatype inbound = Malformed | Data "string option" "string option"

datatype promise = Pending | Resolved inbound | Rejected js_error

record api_state =
  ws :: "ready_state option"
  subscriptions :: "string \<rightharpoonup> callback"
  reconnectAttempts :: nat
  maxReconnectAttempts :: nat
  reconnectDelay :: nat
  outbox :: "request list"
  timers :: "(nat \<times> timer) list"
  promises :: "promise list"
  delivered :: "(nat \<times> inbound) list"

text \<open>The fields as the class declares them, before the constructor calls \<open>connect\<close>.\<close>

definition new_api :: api_state where
  "new_api =
    \<lparr>ws = None, subscriptions = Map.empty, reconnectAttempts = 0, maxReconnectAttempts = 5,
     reconnectDelay = 1000, outbox = [], timers = [], promises = [], delivered = []\<rparr>"

definition reconnect :: "api_state \<Rightarrow> api_state" where
  "reconnect st =
    (if reconnectAttempts st < maxReconnectAttempts st then
       st\<lparr>reconnectAttempts := reconnectAttempts st + 1,
          timers := timers st @ [(reconnectDelay st * (reconnectAttempts st + 1), Reconnect)]\<rparr>
     else st)"

text \<open>
  \<open>connect\<close>: a new socket, in state CONNECTING, replaces the old one; when the
  constructor of the socket throws, the catch clause calls \<open>reconnect\<close>.
\<close>

definition connect :: "bool \<Rightarrow> api_state \<Rightarrow> api_state" where
  "connect throws st = (if throws then reconnect st else st\<lparr>ws := Some CONNECTING\<rparr>)"

definition onopen :: "api_state \<Rightarrow> api_state" where
  "onopen st = st\<lparr>ws := Some OPEN, reconnectAttempts := 0\<rparr>"

definition onclose :: "api_state \<Rightarrow> api_state" where
  "onclose st = reconnect (st\<lparr>ws := Some CLOSED\<rparr>)"

text \<open>\<^verbatim>\<open>!this.ws || this.ws.readyState !== WebSocket.OPEN\<close>\<close>

definition not_connected :: "api_state \<Rightarrow> bool" where
  "not_connected st = (ws st \<noteq> Some OPEN)"

text \<open>The request ids \<^verbatim>\<open>`history_${symbol}`\<close> and \<^verbatim>\<open>`tick_${symbol}`\<close>.\<close>

definition history_key :: "string \<Rightarrow> string" where
  "history_key s = ''history_'' @ s"

definition tick_key :: "string \<Rightarrow> string" where
  "tick_key s = ''tick_'' @ s"

text \<open>Settling a promise a second time has no effect.\<close>

definition settle :: "nat \<Rightarrow> promise \<Rightarrow> api_state \<Rightarrow> api_state" where
  "settle i result st =
    (if i < length (promises st) \<and> promises st ! i = Pending
     then st\<lparr>promises := (promises st)[i := result]\<rparr> else st)"

text \<open>\<^verbatim>\<open>!symbol || symbol === 'na' || symbol === 'undefined' || symbol === 'null'\<close>\<close>

definition invalid_symbol :: "string \<Rightarrow> bool" where
  "invalid_symbol s = (s = [] \<or> s = ''na'' \<or> s = ''undefined'' \<or> s = ''null'')"

text \<open>
  \<open>getTicksHistory\<close>: the promise returned is the new last entry of \<open>promises\<close>.
\<close>

definition getTicksHistory :: "string \<Rightarrow> jsnum \<Rightarrow> api_state \<Rightarrow> api_state" where
  "getTicksHistory s cnt st =
    (let i = length (promises st);
         st1 = st\<lparr>promises := promises st @ [Pending]\<rparr>
     in if not_connected st1 then settle i (Rejected (Error ''WebSocket not connected'')) st1
        else if invalid_symbol s then
          settle i (Rejected (Error (''Invalid symbol for tick history: '' @ s))) st1
        else
          let requestId = history_key s in
          st1\<lparr>subscriptions := (subscriptions st1)(requestId \<mapsto> HistoryCallback i requestId),
              outbox := outbox st1 @ [TicksHistory s cnt requestId],
              timers := timers st1 @ [(10000, HistoryTimeout i requestId)]\<rparr>)"

text \<open>
  \<open>subscribeToTicks\<close>: its promise is settled before the method returns, so the result
  is returned with the state.
\<close>

definition subscribeToTicks :: "string \<Rightarrow> nat \<Rightarrow> api_state \<Rightarrow> api_state \<times> (js_error + string)" where
  "subscribeToTicks s cb st =
    (if not_connected st then (st, Inl (Error ''WebSocket not connected''))
     else
       let subscriptionId = tick_key s in
       (st\<lparr>subscriptions := (subscriptions st)(subscriptionId \<mapsto> TickCallback cb),
           outbox := outbox st @ [TicksSubscribe s subscriptionId]\<rparr>,
        Inr subscriptionId))"

definition unsubscribe :: "string \<Rightarrow> api_state \<Rightarrow> api_state" where
  "unsubscribe subscriptionId st =
    (let st1 = st\<lparr>subscriptions := (subscriptions st)(subscriptionId := None)\<rparr>
     in if ws st1 = Some OPEN then st1\<lparr>outbox := outbox st1 @ [ForgetAll]\<rparr> else st1)"

text \<open>Calling a stored callback with the data of a message.\<close>

definition invoke :: "callback \<Rightarrow> inbound \<Rightarrow> api_state \<Rightarrow> api_state" where
  "invoke cb data st =
    (case cb of
       HistoryCallback i requestId \<Rightarrow>
         settle i (Resolved data) (st\<lparr>subscriptions := (subscriptions st)(requestId := None)\<rparr>)
     | TickCallback c \<Rightarrow> st\<lparr>delivered := delivered st @ [(c, data)]\<rparr>)"

definition dispatch :: "string \<Rightarrow> inbound \<Rightarrow> api_state \<Rightarrow> api_state" where
  "dispatch key data st = (case subscriptions st key of Some cb \<Rightarrow> invoke cb data st | None \<Rightarrow> st)"

text \<open>\<open>onmessage\<close>: a parse error is caught and logged, nothing else happens.\<close>

definition onmessage :: "inbound \<Rightarrow> api_state \<Rightarrow> api_state" where
  "onmessage msg st =
    (case msg of
       Malformed \<Rightarrow> st
     | Data tick history \<Rightarrow>
         (let st1 = (case tick of Some s \<Rightarrow> dispatch (tick_key s) msg st | None \<Rightarrow> st)
          in case history of Some e \<Rightarrow> dispatch (history_key e) msg st1 | None \<Rightarrow> st1))"

text \<open>
  A timer that has been set fires: it leaves the pending timers and its callback runs.
  The socket constructor does not throw here.
\<close>

definition run_timer :: "timer \<Rightarrow> api_state \<Rightarrow> api_state" where
  "run_timer t st =
    (case t of
       Reconnect \<Rightarrow> connect False st
     | HistoryTimeout i requestId \<Rightarrow>
         (if subscriptions st requestId \<noteq> None then
            settle i (Rejected (Error ''Request timeout''))
              (st\<lparr>subscriptions := (subscriptions st)(requestId := None)\<rparr>)
          else st))"

definition fire :: "timer \<Rightarrow> api_state \<Rightarrow> api_state" where
  "fire t st =
    (case find (\<lambda>p. snd p = t) (timers st) of
       Some p \<Rightarrow> run_timer t (st\<lparr>timers := remove1 p (timers st)\<rparr>)
     | None \<Rightarrow> st)"

text \<open>What can happen to the client, and a run of such events.\<close>

datatype event =
    Opened
  | Closed
  | Failed
  | Received inbound
  | Fired timer
  | CallHistory string jsnum
  | CallSubscribe string nat
  | CallUnsubscribe string

fun step :: "api_state \<Rightarrow> event \<Rightarrow> api_state" where
  "step st Opened = onopen st"
| "step st Closed = onclose st"
| "step st Failed = st"
| "step st (Received msg) = onmessage msg st"
| "step st (Fired t) = fire t st"
| "step st (CallHistory s cnt) = getTicksHistory s cnt st"
| "step st (CallSubscribe s cb) = fst (subscribeToTicks s cb st)"
| "step st (CallUnsubscribe k) = unsubscribe k st"

definition run :: "api_state \<Rightarrow> event list \<Rightarrow> api_state" where
  "run st evs = foldl step st evs"


text \<open>
  The promises and timers of a state are named by numbers. In a state the client can be
  in, the callback stored under a request id carries that id and names a promise that
  exists, and so does every pending timeout.
\<close>

definition wf_api :: "api_state \<Rightarrow> bool" where
  "wf_api st =
    ((\<forall>key j r. subscriptions st key = Some (HistoryCallback j r) \<longrightarrow>
        r = key \<and> j < length (promises st)) \<and>
     (\<forall>d j r. (d, HistoryTimeout j r) \<in> set (timers st) \<longrightarrow> j < length (promises st)))"

text \<open>
  The request of promise \<open>i\<close> under the request id \<open>k\<close> is outstanding: the promise is
  pending, its callback is the one stored under \<open>k\<close> and nowhere else, and its timeout is
  pending.
\<close>

definition awaiting :: "nat \<Rightarrow> string \<Rightarrow> api_state \<Rightarrow> bool" where
  "awaiting i k st =
    (wf_api st \<and> i < length (promises st) \<and> promises st ! i = Pending \<and>
     subscriptions st k = Some (HistoryCallback i k) \<and>
     (\<forall>key r. subscriptions st key = Some (HistoryCallback i r) \<longrightarrow> key = k) \<and>
     (\<exists>d. (d, HistoryTimeout i k) \<in> set (timers st)) \<and>
     (\<forall>d r. (d, HistoryTimeout i r) \<in> set (timers st) \<longrightarrow> r = k))"

text \<open>The client once its socket has opened, and after five failed reconnections.\<close>

definition connected_api :: api_state where
  "connected_api = onopen (connect False new_api)"

definition exhausted_api :: api_state where
  "exhausted_api = run connected_api
     [Closed, Fired Reconnect, Closed, Fired Reconnect, Closed, Fired Reconnect,
      Closed, Fired Reconnect, Closed, Fired Reconnect, Closed]"

text \<open>A tick with a given digit, for examples.\<close>

definition sampleTick :: "nat \<Rightarrow> TickData" where
  "sampleTick d = \<lparr>digit = d, price = Fin (of_nat d), timestamp = Fin 0\<rparr>"

text \<open>The value of a finite number.\<close>

definition fin_value :: "jsnum \<Rightarrow> rat" where
  "fin_value x = (case x of Fin q \<Rightarrow> q | _ \<Rightarrow> 0)"

text \<open>The integer that \<^verbatim>\<open>toFixed(1)\<close> prints for a percentage, without the decimal point.\<close>

definition percentTenths :: "nat \<Rightarrow> nat \<Rightarrow> int" where
  "percentTenths c n =
     \<lfloor>fin_value (js_mul (js_div (Fin (of_nat c)) (Fin (of_nat n))) (Fin 100)) * 10 + 1/2\<rfloor>"

text \<open>The order by a key, ties broken by ascending index.\<close>

definition key_then_index :: "(nat \<Rightarrow> rat) \<Rightarrow> nat \<Rightarrow> nat \<Rightarrow> bool" where
  "key_then_index f a b = (f a < f b \<or> (f a = f b \<and> a < b))"

text \<open>Ten counts out of \<open>n\<close> ticks, \<open>n\<close> a possible array length.\<close>

definition valid_counts :: "nat list \<Rightarrow> nat \<Rightarrow> bool" where
  "valid_counts counts n = (length counts = 10 \<and> 0 < n \<and> n < 2 ^ 32 \<and> (\<forall>c\<in>set counts. c \<le> n))"

text \<open>The value of the percentage of a digit.\<close>

definition pct_value :: "DigitStats list \<Rightarrow> nat \<Rightarrow> rat" where
  "pct_value stats d = fin_value (percentage (stats ! d))"

text \<open>The exact sum of the percentages.\<close>

definition pct_sum :: "DigitStats list \<Rightarrow> rat" where
  "pct_sum stats = sum_list (map (\<lambda>s. fin_value (percentage s)) stats)"

text \<open>Ticks with the digit counts 5, 5, 3, 3, 2, 2, 1, 1, 0, 0, and six ticks of six digits.\<close>

definition ticks22 :: "TickData list" where
  "ticks22 = map sampleTick [0, 0, 0, 0, 0, 1, 1, 1, 1, 1, 2, 2, 2, 3, 3, 3, 4, 4, 5, 5, 6, 7]"

definition ticks6 :: "TickData list" where
  "ticks6 = map sampleTick [0, 1, 2, 3, 4, 5]"

section \<open>Properties of the number model\<close>

lemma rne_near: "\<bar>of_int (rne q) - q\<bar> \<le> 1/2"
  unfolding rne_def Let_def by (auto simp: abs_if) linarith+

lemma rne_unique:
  assumes "\<bar>q - of_int m\<bar> < 1/2"
  shows "rne q = m"
proof -
  have "\<bar>of_int (rne q) - q\<bar> \<le> 1/2" by (rule rne_near)
  with assms have "\<bar>(of_int (rne q) :: rat) - of_int m\<bar> < 1" by linarith
  then have "\<bar>rne q - m\<bar> < 1"
    by (metis of_int_diff of_int_abs of_int_less_1_iff)
  then show ?thesis by linarith
qed

lemma rne_nonneg: "0 \<le> q \<Longrightarrow> 0 \<le> rne q"
  unfolding rne_def Let_def by auto

lemma pow2_bitlen:
  assumes "0 < p"
  shows "(2::rat) powi (bitlen p - 1) \<le> of_int p" "(of_int p :: rat) < 2 powi (bitlen p)"
proof -
  from assms have b1: "1 \<le> bitlen p" by (auto simp: bitlen_alt_def)
  from bitlen_bounds[OF assms] have lo: "2 ^ nat (bitlen p - 1) \<le> p" and hi: "p < 2 ^ nat (bitlen p)"
    by auto
  have "(of_int (2 ^ nat (bitlen p - 1)) :: rat) \<le> of_int p" using lo by (simp only: of_int_le_iff)
  then show "(2::rat) powi (bitlen p - 1) \<le> of_int p"
    using b1 by (simp add: power_int_nonneg_exp)
  have "(of_int p :: rat) < of_int (2 ^ nat (bitlen p))" using hi by (simp only: of_int_less_iff)
  then show "(of_int p :: rat) < 2 powi (bitlen p)"
    using b1 by (simp add: power_int_nonneg_exp)
qed

lemma ilog2_bounds:
  assumes "0 < a"
  shows "2 powi (ilog2 a) \<le> a \<and> a < 2 powi (ilog2 a + 1)"
proof -
  obtain p q where pq: "quotient_of a = (p, q)" by (cases "quotient_of a")
  then have q: "0 < q" and a: "a = of_int p / of_int q"
    using quotient_of_denom_pos quotient_of_div by auto
  with assms have p: "0 < p" by (simp add: zero_less_divide_iff)
  define d where "d = bitlen p - bitlen q"
  note P = pow2_bitlen[OF p] and Q = pow2_bitlen[OF q]
  have qr: "(0::rat) < of_int q" using q by simp
  have "a < 2 powi (bitlen p) / 2 powi (bitlen q - 1)"
    unfolding a using P Q qr p by (intro frac_less) auto
  also have "\<dots> = 2 powi (bitlen p - (bitlen q - 1))"
    by (rule power_int_diff[symmetric]) simp
  also have "bitlen p - (bitlen q - 1) = d + 1"
    by (simp add: d_def)
  finally have up: "a < 2 powi (d + 1)" .
  have "2 powi (bitlen p - 1) / 2 powi (bitlen q) < a"
    unfolding a using P Q qr p by (intro frac_less2) auto
  moreover have "2 powi (bitlen p - 1) / 2 powi (bitlen q) = (2::rat) powi (bitlen p - 1 - bitlen q)"
    by (rule power_int_diff[symmetric]) simp
  moreover have "bitlen p - 1 - bitlen q = d - 1"
    by (simp add: d_def)
  ultimately have lo: "2 powi (d - 1) < a" by simp
  show ?thesis
    using up lo by (auto simp: ilog2_def pq d_def[symmetric] Let_def less_imp_le)
qed

lemma ilog2_unique:
  assumes "2 powi k \<le> a" "a < 2 powi (k + 1)"
  shows "ilog2 a = k"
proof -
  have a: "0 < a" using assms(1) by (rule less_le_trans[rotated]) simp
  from ilog2_bounds[OF a] have l: "2 powi (ilog2 a) \<le> a" and u: "a < 2 powi (ilog2 a + 1)" by auto
  have "(2::rat) powi k < 2 powi (ilog2 a + 1)" using assms(1) u by simp
  then have "k < ilog2 a + 1"
    using power_int_increasing[of "ilog2 a + 1" k "2::rat"] by (cases "k < ilog2 a + 1") auto
  moreover have "(2::rat) powi (ilog2 a) < 2 powi (k + 1)" using assms(2) l by simp
  then have "ilog2 a < k + 1"
    using power_int_increasing[of "k + 1" "ilog2 a" "2::rat"] by (cases "ilog2 a < k + 1") auto
  ultimately show ?thesis by simp
qed

text \<open>The rounded significand stays below the overflow threshold.\<close>

lemma signif_bound:
  assumes hi: "x < 2 powi (k + 1)" and k: "k \<le> 1022" and x: "0 < x"
  shows "of_int (rne (x / 2 powi (k - 52))) * 2 powi (k - 52) < (2::rat) powi 1024"
proof -
  define m where "m = rne (x / 2 powi (k - 52))"
  have m: "\<bar>of_int m - x / 2 powi (k - 52)\<bar> \<le> 1/2" unfolding m_def by (rule rne_near)
  have p: "(0::rat) < 2 powi (k - 52)" by simp
  have "x / 2 powi (k - 52) < 2 powi (k + 1) / 2 powi (k - 52)"
    using hi p by (simp add: divide_strict_right_mono)
  also have "\<dots> = 2 powi (k + 1 - (k - 52))"
    by (rule power_int_diff[symmetric]) simp
  also have "\<dots> = 2 ^ 53" by simp
  finally have "of_int m < (2 ^ 53 + 1/2 :: rat)" using m by linarith
  then have "of_int m < (of_int (2 ^ 53 + 1) :: rat)" by simp
  then have "m < 2 ^ 53 + 1" by (simp only: of_int_less_iff)
  then have "m \<le> 2 ^ 53" by simp
  then have "(of_int m :: rat) \<le> of_int (2 ^ 53)" by (simp only: of_int_le_iff)
  then have "of_int m * 2 powi (k - 52) \<le> (2 ^ 53 :: rat) * 2 powi (k - 52)"
    using p by (simp add: mult_right_mono)
  also have "(2 ^ 53 :: rat) * 2 powi (k - 52) = 2 powi 53 * 2 powi (k - 52)" by simp
  also have "\<dots> = 2 powi (53 + (k - 52))"
    by (rule power_int_add[symmetric]) simp
  also have "\<dots> \<le> 2 powi 1023"
    using k by (intro power_int_increasing) auto
  also have "\<dots> < (2::rat) powi 1024"
    by (intro power_int_strict_increasing) auto
  finally show ?thesis unfolding m_def .
qed

text \<open>In the normal range the rounding is the nearest multiple of \<open>2 ^ (k - 52)\<close>.\<close>

lemma round64_normal:
  assumes lo: "2 powi k \<le> x" and hi: "x < 2 powi (k + 1)"
    and k: "- 1022 \<le> k" "k \<le> 1022"
  shows "round64 x = Fin (of_int (rne (x / 2 powi (k - 52))) * 2 powi (k - 52))"
proof -
  have x: "0 < x" using lo by (rule less_le_trans[rotated]) simp
  have il: "ilog2 x = k" using lo hi by (rule ilog2_unique)
  have e: "max (k - 52) (- 1074) = k - 52" using k by simp
  have "of_int (rne (x / 2 powi (k - 52))) * 2 powi (k - 52) < (2::rat) powi 1024"
    using hi k(2) x by (rule signif_bound)
  then have y: "\<not> (2::rat) powi 1024 \<le> of_int (rne (x / 2 powi (k - 52))) * 2 powi (k - 52)"
    by (simp only: not_le)
  show ?thesis
    using x y unfolding round64_def il e Let_def abs_of_pos[OF x]
    by (simp del: power_int_numeral)
qed

lemma round64_eqI:
  assumes "2 powi k \<le> x" "x < 2 powi (k + 1)" "- 1022 \<le> k" "k \<le> 1022"
    and m: "\<bar>x / 2 powi (k - 52) - of_int m\<bar> < 1/2"
  shows "round64 x = Fin (of_int m * 2 powi (k - 52))"
  using round64_normal[OF assms(1-4)] rne_unique[OF m] by simp

text \<open>The relative error of a rounding in the normal range is at most \<open>2 ^ -53\<close>.\<close>

lemma round64_error:
  assumes lo: "2 powi (- 1022) \<le> x" and hi: "x < 2 powi 1023"
  shows "\<exists>y. round64 x = Fin y \<and> \<bar>y - x\<bar> \<le> x / 2 ^ 53"
proof -
  have x: "0 < x" using lo by (rule less_le_trans[rotated]) simp
  define k where "k = ilog2 x"
  from ilog2_bounds[OF x] have kl: "2 powi k \<le> x" and ku: "x < 2 powi (k + 1)"
    by (auto simp: k_def)
  have "(2::rat) powi (- 1022) < 2 powi (k + 1)" using lo ku by (rule le_less_trans)
  then have k1: "- 1022 \<le> k"
    using power_int_increasing[of "k + 1" "- 1022" "2::rat"] by (cases "- 1022 \<le> k") auto
  have "(2::rat) powi k < 2 powi 1023" using kl hi by (rule le_less_trans)
  then have k2: "k \<le> 1022"
    using power_int_increasing[of 1023 k "2::rat"] by (cases "k \<le> 1022") auto
  define e where "e = k - 52"
  define m where "m = rne (x / 2 powi e)"
  have r: "round64 x = Fin (of_int m * 2 powi e)"
    unfolding m_def e_def using kl ku k1 k2 by (rule round64_normal)
  have p: "(0::rat) < 2 powi e" by simp
  have "\<bar>of_int m - x / 2 powi e\<bar> \<le> 1/2" unfolding m_def by (rule rne_near)
  then have "\<bar>of_int m - x / 2 powi e\<bar> * 2 powi e \<le> 1/2 * 2 powi e"
    using p by (simp add: mult_right_mono del: power_int_numeral)
  moreover have "\<bar>of_int m - x / 2 powi e\<bar> * 2 powi e = \<bar>of_int m * 2 powi e - x\<bar>"
  proof -
    have "\<bar>of_int m - x / 2 powi e\<bar> * 2 powi e = \<bar>(of_int m - x / 2 powi e) * 2 powi e\<bar>"
      using p by (simp add: abs_mult)
    also have "(of_int m - x / 2 powi e) * 2 powi e = of_int m * 2 powi e - x"
      using p by (simp add: field_simps)
    finally show ?thesis .
  qed
  moreover have "1/2 * (2::rat) powi e = 2 powi k / 2 ^ 53"
  proof -
    have "(2::rat) powi k = 2 powi (e + 52)" by (simp add: e_def)
    also have "\<dots> = 2 powi e * 2 powi 52" by (rule power_int_add) simp
    finally show ?thesis by simp
  qed
  moreover have "(2::rat) powi k / 2 ^ 53 \<le> x / 2 ^ 53"
    using kl by (simp add: divide_right_mono)
  ultimately have "\<bar>of_int m * 2 powi e - x\<bar> \<le> x / 2 ^ 53" by linarith
  with r show ?thesis by blast
qed

lemma round64_nonneg:
  assumes "0 \<le> x"
  shows "round64 x = PosInf \<or> (\<exists>y. round64 x = Fin y \<and> 0 \<le> y)"
proof (cases "x = 0")
  case True
  then show ?thesis by (simp add: round64_def)
next
  case False
  with assms have x: "0 < x" by simp
  have "0 \<le> of_int (rne (x / 2 powi e)) * (2::rat) powi e" for e
    using x by (intro mult_nonneg_nonneg) (simp_all add: rne_nonneg)
  then show ?thesis
    using x unfolding round64_def Let_def abs_of_pos[OF x]
    by (auto simp del: power_int_numeral)
qed

lemma round64_minus: "round64 (- x) = js_neg (round64 x)"
  unfolding round64_def Let_def by (auto simp del: power_int_numeral)

lemma floor_rat_div_numeral [simp]:
  "\<lfloor>numeral a / numeral b :: rat\<rfloor> = numeral a div numeral b"
  using floor_divide_of_int_eq[of "numeral a" "numeral b", where ?'a = rat] by simp

lemma floor_rat_minus_div_numeral [simp]:
  "\<lfloor>- (numeral a / numeral b) :: rat\<rfloor> = - numeral a div numeral b"
  using floor_divide_of_int_eq[of "- numeral a" "numeral b", where ?'a = rat] by simp

lemma ceiling_rat_div_numeral [simp]:
  "\<lceil>numeral a / numeral b :: rat\<rceil> = - (- numeral a div numeral b)"
  using floor_divide_of_int_eq[of "- numeral a" "numeral b", where ?'a = rat]
  by (simp add: ceiling_def)

lemma ceiling_rat_minus_div_numeral [simp]:
  "\<lceil>- (numeral a / numeral b) :: rat\<rceil> = - (numeral a div numeral b)"
  using floor_divide_of_int_eq[of "numeral a" "numeral b", where ?'a = rat]
  by (simp add: ceiling_def)

lemma floor_rat_minus_one [simp]: "\<lfloor>- 1 :: rat\<rfloor> = - 1"
  using floor_of_int[of "- 1", where ?'a = rat] by simp

lemma rne_of_int [simp]: "rne (of_int m) = m"
  by (rule rne_unique) simp

text \<open>Integers below \<open>2 ^ 53\<close> in magnitude are doubles.\<close>

lemma round64_of_nat_pos:
  assumes "0 < n" "n < 2 ^ 53"
  shows "round64 (of_int n) = Fin (of_int n)"
proof -
  define x where "x = (of_int n :: rat)"
  have x: "0 < x" using assms by (simp add: x_def)
  define k where "k = ilog2 x"
  from ilog2_bounds[OF x] have kl: "2 powi k \<le> x" and ku: "x < 2 powi (k + 1)"
    by (auto simp: k_def)
  have "x < 2 powi 53" using assms(2) unfolding x_def
    by (metis of_int_less_iff of_int_numeral of_int_power power_int_numeral)
  with kl have "(2::rat) powi k < 2 powi 53" by (rule le_less_trans)
  then have k53: "k < 53"
    using power_int_increasing[of 53 k "2::rat"] by (cases "k < 53") auto
  have "(1::rat) \<le> x" using assms(1) by (simp add: x_def)
  with ku have "(2::rat) powi 0 < 2 powi (k + 1)" by simp
  then have k0: "0 \<le> k"
    using power_int_increasing[of "k + 1" 0 "2::rat"] by (cases "0 \<le> k") auto
  have r: "round64 x = Fin (of_int (rne (x / 2 powi (k - 52))) * 2 powi (k - 52))"
    using kl ku k0 k53 by (intro round64_normal) auto
  have p: "(2::rat) powi (k - 52) = 1 / 2 ^ nat (52 - k)"
    using k53 by (simp add: power_int_def inverse_eq_divide power_one_over)
  have "x / 2 powi (k - 52) = of_int (n * 2 ^ nat (52 - k))"
    by (simp add: p x_def)
  then have "rne (x / 2 powi (k - 52)) = n * 2 ^ nat (52 - k)"
    by (simp only: rne_of_int)
  then show ?thesis
    using r by (simp add: p x_def)
qed

lemma round64_of_int:
  assumes "\<bar>n\<bar> < 2 ^ 53"
  shows "round64 (of_int n) = Fin (of_int n)"
proof (cases "n = 0")
  case True
  then show ?thesis by (simp add: round64_def)
next
  case False
  show ?thesis
  proof (cases "0 < n")
    case True
    then show ?thesis using assms by (intro round64_of_nat_pos) auto
  next
    case neg: False
    with False assms have "0 < - n" "- n < 2 ^ 53" by auto
    then have "round64 (of_int (- n)) = Fin (of_int (- n))" by (rule round64_of_nat_pos)
    then show ?thesis using round64_minus[of "of_int (- n)"] by simp
  qed
qed

lemma round64_numeral [simp]:
  "numeral w < (2 ^ 53 :: int) \<Longrightarrow> round64 (numeral w) = Fin (numeral w)"
  using round64_of_int[of "numeral w"] by simp

section \<open>The contract evaluator\<close>







lemma rem_nonneg: "0 \<le> y \<Longrightarrow> 0 < b \<Longrightarrow> 0 \<le> y - b * of_int (trunc (y / b))"
proof -
  assume y: "0 \<le> y" and b: "0 < b"
  then have "trunc (y / b) = \<lfloor>y / b\<rfloor>" by (simp add: trunc_def)
  moreover have "of_int \<lfloor>y / b\<rfloor> \<le> y / b" by simp
  then have "b * of_int \<lfloor>y / b\<rfloor> \<le> b * (y / b)" using b by (intro mult_left_mono) simp_all
  then have "b * of_int \<lfloor>y / b\<rfloor> \<le> y" using b by simp
  ultimately show ?thesis by simp
qed

lemma lastDigit_nonneg:
  assumes "\<not> js_lt p (Fin 0)"
  shows "lastDigit p = NaN \<or> (\<exists>n. 0 \<le> n \<and> lastDigit p = Fin (of_int n))"
proof (cases p)
  case (Fin a)
  with assms have a: "0 \<le> a * 10000" by simp
  from round64_nonneg[OF a] show ?thesis
  proof
    assume "round64 (a * 10000) = PosInf"
    then show ?thesis by (simp add: lastDigit_def Fin)
  next
    assume "\<exists>y. round64 (a * 10000) = Fin y \<and> 0 \<le> y"
    then obtain y where y: "round64 (a * 10000) = Fin y" "0 \<le> y" by blast
    have "0 \<le> y - 10 * of_int (trunc (y / 10))" using y(2) by (rule rem_nonneg) simp
    then have "0 \<le> \<lfloor>y - 10 * of_int (trunc (y / 10))\<rfloor>" by simp
    then show ?thesis using y(1) by (auto simp: lastDigit_def Fin)
  qed
qed (use assms in \<open>auto simp: lastDigit_def\<close>)

lemma rem_less: "0 < b \<Longrightarrow> y - b * of_int (trunc (y / b)) < b"
proof -
  assume b: "0 < b"
  have "y / b - of_int (trunc (y / b)) < 1"
    unfolding trunc_def by (cases "0 \<le> y / b") (simp_all, linarith+)
  then have "b * (y / b - of_int (trunc (y / b))) < b * 1"
    using b by (rule mult_strict_left_mono)
  then show ?thesis using b by (simp add: right_diff_distrib)
qed

lemma lastDigit_range: "lastDigit p = NaN \<or> (\<exists>n. n \<le> 9 \<and> lastDigit p = Fin (of_int n))"
proof (cases "js_mul p (Fin 10000)")
  case (Fin y)
  have "y - 10 * of_int (trunc (y / 10)) < 10" by (rule rem_less) simp
  then have "\<lfloor>y - 10 * of_int (trunc (y / 10))\<rfloor> < 10" by (simp add: floor_less_iff)
  then have "\<lfloor>y - 10 * of_int (trunc (y / 10))\<rfloor> \<le> 9" by simp
  then show ?thesis using Fin by (auto simp: lastDigit_def)
qed (auto simp: lastDigit_def)

lemma is_even_digit_simps [simp]:
  "is_even_digit NaN = False" "is_even_digit (Fin (of_int n)) = even n"
  "is_odd_digit NaN = False"
  "is_odd_digit (Fin (of_int n)) = (n = 1 \<or> n = 3 \<or> n = 5 \<or> n = 7 \<or> n = 9)"
proof -
  have e: "(of_int n = (numeral w :: rat)) = (n = numeral w)" for w
    using of_int_eq_iff[of n "numeral w", where ?'a = rat] by (simp only: of_int_numeral)
  have "((of_int n :: rat) = 1) = (n = 1)" by simp
  then show "is_odd_digit (Fin (of_int n)) = (n = 1 \<or> n = 3 \<or> n = 5 \<or> n = 7 \<or> n = 9)"
    by (simp add: is_odd_digit_def e)
qed (simp_all add: is_even_digit_def is_odd_digit_def)

text \<open>On the digits 0 to 9 the even ones are 0, 2, 4, 6 and 8.\<close>

lemma is_even_digit_digits:
  "0 \<le> n \<Longrightarrow> n \<le> 9 \<Longrightarrow>
   is_even_digit (Fin (of_int n)) = (n = 0 \<or> n = 2 \<or> n = 4 \<or> n = 6 \<or> n = 8)"
  by (simp only: is_even_digit_simps) presburger

text \<open>The scaled digit of a price that is not negative is one of 0 to 9, if it is a number.\<close>

lemma lastDigit_digit:
  assumes "\<not> js_lt p (Fin 0)"
  shows "lastDigit p = NaN \<or> (\<exists>n. 0 \<le> n \<and> n \<le> 9 \<and> lastDigit p = Fin (of_int n))"
  using lastDigit_nonneg[OF assms] lastDigit_range[of p] by auto


lemma lit_100_007: "js_lit (100007/1000) = Fin (1759341749743911/17592186044416)"
  unfolding js_lit_def using round64_eqI[of 6 "100007/1000" 7037366998975644] by simp

lemma lit_100_0007: "js_lit (1000007/10000) = Fin (1759230918971831/17592186044416)"
  unfolding js_lit_def using round64_eqI[of 6 "1000007/10000" 7036923675887324] by simp

lemma scaled_100_007: "round64 (1759341749743911/17592186044416 * 10000) = Fin 1000070"
  using round64_eqI[of 19 "1759341749743911/17592186044416 * 10000" 8590535887421440] by simp

lemma scaled_100_0007: "round64 (1759230918971831/17592186044416 * 10000) = Fin 1000007"
  using round64_eqI[of 19 "1759230918971831/17592186044416 * 10000" 8589994721542144] by simp

lemma lastDigit_100_007: "lastDigit (js_lit (100007/1000)) = Fin 0"
  unfolding lit_100_007 lastDigit_def js_mul.simps scaled_100_007
  by (simp add: trunc_def)

lemma lastDigit_100_0007: "lastDigit (js_lit (1000007/10000)) = Fin 7"
  unfolding lit_100_0007 lastDigit_def js_mul.simps scaled_100_0007
  by (simp add: trunc_def)

lemma round64_small: "round64 (625/1024) = Fin (625/1024)"
  using round64_eqI[of "- 1" "625/1024" 5497558138880000] by simp

lemma lastDigit_negative: "lastDigit (Fin (- (1/16384))) = Fin (- 1)"
proof -
  have "round64 (- (625/1024)) = Fin (- (625/1024))"
    using round64_minus[of "625/1024"] round64_small by simp
  moreover have "- (1/16384) * 10000 = (- (625/1024) :: rat)" by simp
  ultimately have "js_mul (Fin (- (1/16384))) (Fin 10000) = Fin (- (625/1024))"
    by (simp only: js_mul.simps)
  then show ?thesis
    unfolding lastDigit_def by (simp add: trunc_def)
qed


text \<open>
  C8 (as amended). For an OPEN position with prediction OVER, barrier 5 and entry price
  100.000: the tick price 100.007 has scaled last digit 0 (the digit is taken after
  scaling by 10000), so the evaluation yields isWinning = false and the position
  contributes minus the stake; the tick price 100.0007 has scaled last digit 7, the
  evaluation yields isWinning = true and the position contributes payout minus stake.
\<close>

theorem over_barrier_scenario:
  assumes "status t = ''OPEN''" "prediction t = ''OVER''" "barrier t = Some (Fin 5)"
    and "entryPrice t = js_lit 100"
  shows "lastDigit (js_lit (100007/1000)) = Fin 0 \<and>
         \<not> calculateIsWinning t (js_lit (100007/1000)) \<and>
         isWinning (updatedTrade t (js_lit (100007/1000))) = Some False \<and>
         getTradeProfit (updatedTrade t (js_lit (100007/1000))) = js_neg (stake t) \<and>
         lastDigit (js_lit (1000007/10000)) = Fin 7 \<and>
         calculateIsWinning t (js_lit (1000007/10000)) \<and>
         isWinning (updatedTrade t (js_lit (1000007/10000))) = Some True \<and>
         getTradeProfit (updatedTrade t (js_lit (1000007/10000))) = js_sub (payout t) (stake t)"
proof -
  have a: "\<not> calculateIsWinning t (js_lit (100007/1000))"
    using assms by (simp add: calculateIsWinning_def lastDigit_100_007 js_gt_def)
  have b: "calculateIsWinning t (js_lit (1000007/10000))"
    using assms by (simp add: calculateIsWinning_def lastDigit_100_0007 js_gt_def)
  show ?thesis
    using a b assms(1)
    by (simp add: lastDigit_100_007 lastDigit_100_0007 updatedTrade_def getTradeProfit_def)
qed

lemma lit_100: "js_lit 100 = Fin 100"
  unfolding js_lit_def using round64_eqI[of 6 100 7036874417766400] by simp

theorem over_barrier_scenario_witness:
  "lastDigit (js_lit (100007/1000)) = Fin 0 \<and>
   isWinning (updatedTrade (position ''OVER'' (Some (Fin 5)) (Fin 100)) (js_lit (100007/1000)))
     = Some False \<and>
   getTradeProfit (updatedTrade (position ''OVER'' (Some (Fin 5)) (Fin 100)) (js_lit (100007/1000)))
     = Fin (- 10) \<and>
   isWinning (updatedTrade (position ''OVER'' (Some (Fin 5)) (Fin 100)) (js_lit (1000007/10000)))
     = Some True \<and>
   getTradeProfit (updatedTrade (position ''OVER'' (Some (Fin 5)) (Fin 100)) (js_lit (1000007/10000)))
     = js_sub (Fin 19) (Fin 10)"
  using over_barrier_scenario[of "position ''OVER'' (Some (Fin 5)) (Fin 100)"]
  by (simp add: position_def lit_100)

theorem over_barrier_100_007_counterexample:
  "\<not> calculateIsWinning (position ''OVER'' (Some (Fin 5)) (Fin 100)) (js_lit (100007/1000)) \<and>
   getTradeProfit (updatedTrade (position ''OVER'' (Some (Fin 5)) (Fin 100)) (js_lit (100007/1000)))
     = js_neg (Fin 10)"
proof -
  have a: "\<not> calculateIsWinning (position ''OVER'' (Some (Fin 5)) (Fin 100)) (js_lit (100007/1000))"
    by (simp add: calculateIsWinning_def lastDigit_100_007 js_gt_def position_def)
  then show ?thesis
    by (simp add: updatedTrade_def getTradeProfit_def) (simp add: position_def)
qed

section \<open>The tick window\<close>

lemma slice0_nat:
  "slice0 xs (Fin (of_nat n)) = take n xs"
  by (simp add: slice0_def trunc_def Let_def min_def)

text \<open>
  C5. A history that holds exactly \<open>N\<close> ticks under capacity \<open>N\<close> (the capacity is never
  zero, see \<open>ticksInputChange_truthy\<close>) and receives one new tick holds exactly \<open>N\<close> ticks
  afterwards: the new tick followed by the \<open>N - 1\<close> most recent previous ticks. The
  history is kept newest first, so the tick dropped is the last one, the oldest.
\<close>

theorem updateTickHistory_evicts_oldest:
  assumes "length prev = N" "0 < N"
  shows "updateTickHistory (Fin (of_nat N)) newTick prev = newTick # take (N - 1) prev \<and>
         length (updateTickHistory (Fin (of_nat N)) newTick prev) = N \<and>
         take (N - 1) prev = butlast prev"
  using assms
  unfolding updateTickHistory_def slice0_nat
  by (simp add: take_Cons' butlast_conv_take)

theorem updateTickHistory_evicts_oldest_witness:
  "updateTickHistory (Fin 3) \<lparr>digit = 9, price = Fin 4, timestamp = Fin 4000\<rparr>
     [\<lparr>digit = 1, price = Fin 3, timestamp = Fin 3000\<rparr>,
      \<lparr>digit = 2, price = Fin 2, timestamp = Fin 2000\<rparr>,
      \<lparr>digit = 3, price = Fin 1, timestamp = Fin 1000\<rparr>]
   = [\<lparr>digit = 9, price = Fin 4, timestamp = Fin 4000\<rparr>,
      \<lparr>digit = 1, price = Fin 3, timestamp = Fin 3000\<rparr>,
      \<lparr>digit = 2, price = Fin 2, timestamp = Fin 2000\<rparr>]"
  using updateTickHistory_evicts_oldest[of
     "[\<lparr>digit = 1, price = Fin 3, timestamp = Fin 3000\<rparr>,
       \<lparr>digit = 2, price = Fin 2, timestamp = Fin 2000\<rparr>,
       \<lparr>digit = 3, price = Fin 1, timestamp = Fin 1000\<rparr>]" 3
     "\<lparr>digit = 9, price = Fin 4, timestamp = Fin 4000\<rparr>"]
  by simp

text \<open>
  First in, first out in general: after any run of ticks the history is the newest
  \<open>N\<close> of all ticks seen, newest first.
\<close>

lemma updateTickHistory_fold:
  assumes "length h0 \<le> N"
  shows "foldl (\<lambda>h t. updateTickHistory (Fin (of_nat N)) t h) h0 ts = take N (rev ts @ h0)"
  using assms
proof (induction ts arbitrary: h0)
  case Nil
  then show ?case by simp
next
  case (Cons t ts)
  have len: "length (updateTickHistory (Fin (of_nat N)) t h0) \<le> N"
    unfolding updateTickHistory_def slice0_nat by simp
  have "take N (rev ts @ take N (t # h0)) = take N (rev ts @ t # h0)"
    by (simp add: take_Cons' min_def) 
  then show ?case
    using Cons.IH[OF len] by (simp add: updateTickHistory_def slice0_nat)
qed

lemma push_one_more_than_capacity:
  assumes "length ts = Suc N"
  shows "foldl (\<lambda>h t. updateTickHistory (Fin (of_nat N)) t h) [] ts = rev (tl ts)"
proof -
  have "take N (rev ts) = rev (drop (length ts - N) ts)" by (simp add: take_rev)
  also have "\<dots> = rev (tl ts)" using assms by (simp add: drop_Suc)
  finally show ?thesis using updateTickHistory_fold[of "[]" N ts] by simp
qed

section \<open>The window capacity\<close>

lemma parseInt_50: "parseInt ''50'' = Fin 50"
  by (simp add: parseInt_def is_ws_def digit_of_char_def digits_value_def Let_def)

lemma parseInt_9000: "parseInt ''9000'' = Fin 9000"
  by (simp add: parseInt_def is_ws_def digit_of_char_def digits_value_def Let_def)

lemma parseInt_empty: "parseInt '''' = NaN"
  by (simp add: parseInt_def)

lemma ticksInputChange_truthy: "ticksInputChange v \<noteq> Fin 0 \<and> ticksInputChange v \<noteq> NaN"
  by (simp add: ticksInputChange_def js_or_def)

text \<open>
  C9. The capacity has the default 1000, and an empty or zero input falls back to it,
  but the handler stores whatever other integer is typed: 50 and 9000 are stored as
  they are, outside the range 100 to 5000 that the input element declares.
\<close>

theorem ticksInputChange_not_clamped:
  "initialTickCount = Fin 1000 \<and> ticksInputChange '''' = Fin 1000 \<and>
   ticksInputChange ''50'' = Fin 50 \<and> ticksInputChange ''9000'' = Fin 9000"
  by (simp add: ticksInputChange_def initialTickCount_def js_or_def
      parseInt_50 parseInt_9000 parseInt_empty)

section \<open>The digit statistics\<close>

subsection \<open>Sorting\<close>

lemma set_insert_by [simp]: "set (insert_by cmp x ys) = insert x (set ys)"
  by (induction ys) auto

lemma length_insert_by [simp]: "length (insert_by cmp x ys) = Suc (length ys)"
  by (induction ys) auto

lemma set_sort_by [simp]: "set (sort_by cmp xs) = set xs"
  unfolding sort_by_def by (induction xs) auto

lemma length_sort_by [simp]: "length (sort_by cmp xs) = length xs"
  unfolding sort_by_def by (induction xs) auto

lemma insert_by_cong:
  "(\<And>y. y \<in> set ys \<Longrightarrow> cmp x y = cmp' x y) \<Longrightarrow> insert_by cmp x ys = insert_by cmp' x ys"
  by (induction ys) auto

lemma sort_by_cong:
  assumes "\<And>x y. x \<in> set xs \<Longrightarrow> y \<in> set xs \<Longrightarrow> cmp x y = cmp' x y"
  shows "sort_by cmp xs = sort_by cmp' xs"
  using assms
proof (induction xs)
  case Nil
  then show ?case by (simp add: sort_by_def)
next
  case (Cons x xs)
  have ih: "sort_by cmp xs = sort_by cmp' xs" using Cons by simp
  have "insert_by cmp x (sort_by cmp' xs) = insert_by cmp' x (sort_by cmp' xs)"
    using Cons.prems by (intro insert_by_cong) simp
  then show ?case using ih by (simp add: sort_by_def)
qed

text \<open>A comparison that never asks for a move leaves the array as it is.\<close>

lemma sort_by_no_move:
  assumes "\<And>x y. x \<in> set xs \<Longrightarrow> y \<in> set xs \<Longrightarrow> \<not> js_gt (cmp x y) (Fin 0)"
  shows "sort_by cmp xs = xs"
  using assms
proof (induction xs)
  case Nil
  then show ?case by (simp add: sort_by_def)
next
  case (Cons x xs)
  have ih: "sort_by cmp xs = xs" using Cons by simp
  have "insert_by cmp x xs = x # xs"
    using Cons.prems by (cases xs) auto
  then show ?case using ih by (simp add: sort_by_def)
qed

text \<open>The sort is the stable insertion sort of the library for any key that the
  comparison function respects.\<close>

lemma insert_by_insort_key:
  fixes f :: "'a \<Rightarrow> rat"
  assumes "\<And>y. y \<in> set ys \<Longrightarrow> js_gt (cmp x y) (Fin 0) = (f y < f x)"
  shows "insert_by cmp x ys = insort_key f x ys"
  using assms by (induction ys) (auto simp: not_le)

lemma sort_by_sort_key:
  fixes f :: "'a \<Rightarrow> rat"
  assumes "\<And>x y. x \<in> set xs \<Longrightarrow> y \<in> set xs \<Longrightarrow> js_gt (cmp x y) (Fin 0) = (f y < f x)"
  shows "sort_by cmp xs = sort_key f xs"
  using assms
proof (induction xs)
  case Nil
  then show ?case by (simp add: sort_by_def)
next
  case (Cons x xs)
  have ih: "sort_by cmp xs = sort_key f xs" using Cons by simp
  have "insert_by cmp x (sort_key f xs) = insort_key f x (sort_key f xs)"
    using Cons.prems by (intro insert_by_insort_key) simp
  then show ?case using ih by (simp add: sort_by_def)
qed

lemma self_difference_not_positive: "\<not> js_gt (js_sub p p) (Fin 0)"
  by (cases p) (simp_all add: js_gt_def js_sub_def round64_def)

subsection \<open>Counting\<close>

lemma length_foldl_update:
  "(\<And>cs t. length (F cs t) = length cs) \<Longrightarrow> length (foldl F cs f) = length cs"
  by (induction f arbitrary: cs) auto

lemma length_digitCounts [simp]: "length (digitCounts f) = 10"
  unfolding digitCounts_def by (subst length_foldl_update) simp_all

lemma length_unrankedStats [simp]: "length (unrankedStats counts n) = length counts"
  by (simp add: unrankedStats_def)

lemma nth_unrankedStats:
  "d < length counts \<Longrightarrow> unrankedStats counts n ! d = newStat d (counts ! d) (percentageOf (counts ! d) n)"
  by (simp add: unrankedStats_def)

subsection \<open>Marking\<close>

lemma length_mark [simp]: "length (mark refs i f stats) = length stats"
  by (simp add: mark_def)

lemma percentage_mark:
  assumes "\<And>s. percentage (f s) = percentage s"
  shows "percentage (mark refs i f stats ! d) = percentage (stats ! d)"
  using assms
  by (cases "refs ! i < length stats") (auto simp: mark_def nth_list_update list_update_beyond)

lemma sortedAsc_cong:
  assumes "length s' = length s" "\<And>d. d < length s \<Longrightarrow> percentage (s' ! d) = percentage (s ! d)"
  shows "sortedAsc s' = sortedAsc s"
  unfolding sortedAsc_def assms(1)
  by (rule sort_by_cong) (simp add: byPercentageAsc_def assms(2))

lemma markRanks_flags:
  assumes len: "2 \<le> length stats"
    and d: "d < length stats"
  shows "isHighest (markRanks stats ! d) = (isHighest (stats ! d) \<or> d = sortedByPercentage stats ! 0)"
    and "is2ndHighest (markRanks stats ! d) = (is2ndHighest (stats ! d) \<or> d = sortedByPercentage stats ! 1)"
    and "isLowest (markRanks stats ! d) = (isLowest (stats ! d) \<or> d = sortedAsc stats ! 0)"
    and "is2ndLowest (markRanks stats ! d) = (is2ndLowest (stats ! d) \<or> d = sortedAsc stats ! 1)"
    and "percentage (markRanks stats ! d) = percentage (stats ! d)"
    and "count (markRanks stats ! d) = count (stats ! d)"
    and "stat_digit (markRanks stats ! d) = stat_digit (stats ! d)"
proof -
  define byPct where "byPct = sortedByPercentage stats"
  define s1 where "s1 = mark byPct 0 (\<lambda>s. s\<lparr>isHighest := True\<rparr>) stats"
  define s2 where "s2 = mark byPct 1 (\<lambda>s. s\<lparr>is2ndHighest := True\<rparr>) s1"
  define asc where "asc = sortedAsc s2"
  define s3 where "s3 = mark asc 0 (\<lambda>s. s\<lparr>isLowest := True\<rparr>) s2"
  define s4 where "s4 = mark asc 1 (\<lambda>s. s\<lparr>is2ndLowest := True\<rparr>) s3"
  have m: "markRanks stats = s4"
    by (simp add: markRanks_def Let_def s4_def s3_def asc_def s2_def s1_def byPct_def)
  have lb: "length byPct = length stats" by (simp add: byPct_def sortedByPercentage_def)
  have "\<And>e. e < length stats \<Longrightarrow> percentage (s2 ! e) = percentage (stats ! e)"
    by (simp add: s2_def s1_def percentage_mark)
  moreover have "length s2 = length stats" by (simp add: s2_def s1_def)
  ultimately have asc: "asc = sortedAsc stats" unfolding asc_def by (intro sortedAsc_cong) auto
  have la: "length asc = length stats" by (simp add: asc sortedAsc_def)
  have ne: "stats \<noteq> []" using len by auto
  have "byPct ! 0 \<in> set byPct" "byPct ! 1 \<in> set byPct"
    using len lb by (auto intro: nth_mem)
  then have b0: "byPct ! 0 < length stats" "byPct ! 1 < length stats"
    by (simp_all add: byPct_def sortedByPercentage_def)
  have "asc ! 0 \<in> set asc" "asc ! 1 \<in> set asc"
    using len la by (auto intro: nth_mem)
  then have a0: "asc ! 0 < length stats" "asc ! 1 < length stats"
    by (simp_all add: asc sortedAsc_def)
  show "isHighest (markRanks stats ! d) = (isHighest (stats ! d) \<or> d = sortedByPercentage stats ! 0)"
    unfolding m s4_def s3_def s2_def s1_def using len d lb la b0 a0
    by (auto simp: mark_def nth_list_update byPct_def)
  show "is2ndHighest (markRanks stats ! d) = (is2ndHighest (stats ! d) \<or> d = sortedByPercentage stats ! 1)"
    unfolding m s4_def s3_def s2_def s1_def using len d lb la b0 a0
    by (auto simp: mark_def nth_list_update byPct_def)
  show "isLowest (markRanks stats ! d) = (isLowest (stats ! d) \<or> d = sortedAsc stats ! 0)"
    unfolding m s4_def s3_def using len d lb la b0 a0 unfolding asc
    unfolding s2_def s1_def
    by (auto simp: mark_def nth_list_update)
  show "is2ndLowest (markRanks stats ! d) = (is2ndLowest (stats ! d) \<or> d = sortedAsc stats ! 1)"
    unfolding m s4_def s3_def using len d lb la b0 a0 unfolding asc
    unfolding s2_def s1_def
    by (auto simp: mark_def nth_list_update)
  show "percentage (markRanks stats ! d) = percentage (stats ! d)"
    unfolding m s4_def s3_def s2_def s1_def by (simp add: percentage_mark)
  show "count (markRanks stats ! d) = count (stats ! d)"
    unfolding m s4_def s3_def s2_def s1_def using len d lb la b0 a0
    by (auto simp: mark_def nth_list_update)
  show "stat_digit (markRanks stats ! d) = stat_digit (stats ! d)"
    unfolding m s4_def s3_def s2_def s1_def using len d lb la b0 a0
    by (auto simp: mark_def nth_list_update)
qed

lemma equal_percentages_sorted:
  assumes "\<And>d. d < length stats \<Longrightarrow> percentage (stats ! d) = p"
  shows "sortedByPercentage stats = [0..<length stats]" "sortedAsc stats = [0..<length stats]"
proof -
  show "sortedByPercentage stats = [0..<length stats]"
    unfolding sortedByPercentage_def
    by (rule sort_by_no_move) (simp add: byPercentageDesc_def assms self_difference_not_positive)
  show "sortedAsc stats = [0..<length stats]"
    unfolding sortedAsc_def
    by (rule sort_by_no_move) (simp add: byPercentageAsc_def assms self_difference_not_positive)
qed

text \<open>
  C10. The four rank flags are not mutually exclusive: for a non-empty tick input whose
  ten (filtered) digit counts are all equal, digit 0 is marked both isHighest and
  isLowest, and digit 1 both is2ndHighest and is2ndLowest.
\<close>

theorem equal_counts_flags_overlap:
  assumes "ticks \<noteq> []"
    and "digitCounts (filteredTicks selectedMarket ticks) = replicate 10 c"
  shows "isHighest (calculateDigitStats selectedMarket ticks ! 0) \<and>
         isLowest (calculateDigitStats selectedMarket ticks ! 0) \<and>
         is2ndHighest (calculateDigitStats selectedMarket ticks ! 1) \<and>
         is2ndLowest (calculateDigitStats selectedMarket ticks ! 1)"
proof -
  define n where "n = totalCount (filteredTicks selectedMarket ticks)"
  define stats where "stats = unrankedStats (replicate 10 c) n"
  have c: "calculateDigitStats selectedMarket ticks = markRanks stats"
    using assms by (simp add: calculateDigitStats_def Let_def stats_def n_def)
  have len: "length stats = 10" by (simp add: stats_def)
  have "percentage (stats ! d) = percentageOf c n" if "d < length stats" for d
    using that by (simp add: stats_def nth_unrankedStats newStat_def)
  then have "sortedByPercentage stats = [0..<10]" "sortedAsc stats = [0..<10]"
    using equal_percentages_sorted[of stats "percentageOf c n"] len by simp_all
  then show ?thesis
    unfolding c using len
    by (simp add: markRanks_flags)
qed

theorem equal_counts_flags_overlap_witness:
  "map sampleTick [0, 1, 2, 3, 4, 5, 6, 7, 8, 9] \<noteq> [] \<and>
   digitCounts (filteredTicks ''Circles'' (map sampleTick [0, 1, 2, 3, 4, 5, 6, 7, 8, 9]))
     = replicate 10 1 \<and>
   isHighest (calculateDigitStats ''Circles'' (map sampleTick [0, 1, 2, 3, 4, 5, 6, 7, 8, 9]) ! 0) \<and>
   isLowest (calculateDigitStats ''Circles'' (map sampleTick [0, 1, 2, 3, 4, 5, 6, 7, 8, 9]) ! 0) \<and>
   is2ndHighest (calculateDigitStats ''Circles'' (map sampleTick [0, 1, 2, 3, 4, 5, 6, 7, 8, 9]) ! 1) \<and>
   is2ndLowest (calculateDigitStats ''Circles'' (map sampleTick [0, 1, 2, 3, 4, 5, 6, 7, 8, 9]) ! 1)"
proof -
  have h: "digitCounts (filteredTicks ''Circles'' (map sampleTick [0, 1, 2, 3, 4, 5, 6, 7, 8, 9]))
     = replicate 10 1"
    by (simp add: filteredTicks_def digitCounts_def sampleTick_def eval_nat_numeral)
  show ?thesis
    using h equal_counts_flags_overlap[OF _ h] by simp
qed

subsection \<open>Signs of rounded differences\<close>

lemma pow2_m1022_small: "(2::rat) powi (- 1022) \<le> 1 / 2 ^ 40"
proof -
  have "(2::rat) powi (- 1022) \<le> 2 powi (- 40)"
    by (intro power_int_increasing) auto
  moreover have "(2::rat) powi (- 40) = 1 / 2 ^ 40"
    by (simp only: power_int_minus_divide power_int_numeral)
  ultimately show ?thesis by (simp only:)
qed

lemma pow2_1023_big: "(2 ^ 40 :: rat) \<le> 2 powi 1023"
proof -
  have "(2::rat) powi 40 \<le> 2 powi 1023"
    by (intro power_int_increasing) auto
  moreover have "(2::rat) powi 40 = 2 ^ 40"
    by (simp only: power_int_numeral)
  ultimately show ?thesis by (simp only:)
qed

text \<open>Between \<open>2 ^ -40\<close> and \<open>2 ^ 40\<close> a rounding is finite with relative error \<open>2 ^ -53\<close>.\<close>

lemma round64_mid:
  assumes "1 / 2 ^ 40 \<le> x" "x < 2 ^ 40"
  shows "\<exists>y. round64 x = Fin y \<and> \<bar>y - x\<bar> \<le> x / 2 ^ 53"
proof (rule round64_error)
  show "2 powi (- 1022) \<le> x" using pow2_m1022_small assms(1) by (rule order_trans)
  show "x < 2 powi 1023" using assms(2) pow2_1023_big by (rule less_le_trans)
qed

lemma round64_mid_pos:
  assumes "1 / 2 ^ 40 \<le> x" "x < 2 ^ 40"
  shows "\<exists>y. round64 x = Fin y \<and> 0 < y"
proof -
  from round64_mid[OF assms] obtain y where y: "round64 x = Fin y" "\<bar>y - x\<bar> \<le> x / 2 ^ 53"
    by blast
  have x: "0 < x" using assms(1) by (rule less_le_trans[rotated]) simp
  have "x / 2 ^ 53 < x" using x by (simp add: field_simps)
  with y(2) have "0 < y" by linarith
  with y(1) show ?thesis by blast
qed

lemma difference_positive_iff:
  assumes "a = b \<or> 1 / 2 ^ 40 \<le> \<bar>a - b\<bar>" "\<bar>a - b\<bar> < 2 ^ 40"
  shows "js_gt (js_sub (Fin a) (Fin b)) (Fin 0) = (b < a)"
proof -
  consider "a = b" | "b < a" | "a < b" by linarith
  then show ?thesis
  proof cases
    case 1
    then show ?thesis using self_difference_not_positive[of "Fin a"] by simp
  next
    case 2
    with assms have "1 / 2 ^ 40 \<le> a - b" "a - b < 2 ^ 40" by auto
    from round64_mid_pos[OF this] obtain y where "round64 (a - b) = Fin y" "0 < y" by blast
    with 2 show ?thesis by (simp add: js_sub_def js_gt_def)
  next
    case 3
    with assms have "1 / 2 ^ 40 \<le> b - a" "b - a < 2 ^ 40" by auto
    from round64_mid_pos[OF this] obtain y where y: "round64 (b - a) = Fin y" "0 < y" by blast
    have "round64 (a - b) = js_neg (round64 (b - a))"
      using round64_minus[of "b - a"] by simp
    with y 3 show ?thesis by (simp add: js_sub_def js_gt_def)
  qed
qed

lemma floor_rat_one_div_numeral [simp]: "\<lfloor>1 / numeral b :: rat\<rfloor> = 1 div numeral b"
  using floor_divide_of_int_eq[of 1 "numeral b", where ?'a = rat] by simp

subsection \<open>Percentages\<close>

lemma percentageOf_zero: "0 < n \<Longrightarrow> percentageOf 0 n = Fin 0"
  by (simp add: percentageOf_def round64_def parseFloat_toFixed1_def toFixed1_def js_lit_def)

lemma percentTenths_zero: "0 < n \<Longrightarrow> percentTenths 0 n = 0"
  by (simp add: percentTenths_def round64_def fin_value_def)

lemma scaled_ratio:
  assumes c: "0 < c" "c \<le> n" and n: "n < 2 ^ 32"
  shows "\<exists>x. js_mul (js_div (Fin (of_nat c)) (Fin (of_nat n))) (Fin 100) = Fin x \<and>
             \<bar>x - 100 * of_nat c / of_nat n\<bar> \<le> 1 / 10 ^ 13 \<and> 0 < x"
proof -
  define q where "q = (of_nat c / of_nat n :: rat)"
  have n0: "0 < n" using c by simp
  have nr: "(of_nat n :: rat) < 2 ^ 32" using n
    by (metis of_nat_less_iff of_nat_numeral of_nat_power)
  have q1: "q \<le> 1" using c n0 by (simp add: q_def)
  have "1 / of_nat n \<le> q" using c n0 by (simp add: q_def divide_right_mono)
  moreover have "1 / 2 ^ 32 < 1 / (of_nat n :: rat)" using nr n0 by (simp add: frac_less2)
  ultimately have ql: "1 / 2 ^ 32 < q" by simp
  have "\<exists>y. round64 q = Fin y \<and> \<bar>y - q\<bar> \<le> q / 2 ^ 53"
    using ql q1 by (intro round64_mid) auto
  then obtain y where y: "round64 q = Fin y" "\<bar>y - q\<bar> \<le> q / 2 ^ 53" by blast
  have q0: "0 < q" using ql by (rule less_trans[rotated]) simp
  have "q / 2 ^ 53 \<le> q / 2" using q0 by simp
  with y(2) have "q / 2 \<le> y" by linarith
  moreover have "1 / 2 ^ 33 \<le> q / 2" using ql by simp
  ultimately have yl: "1 / 2 ^ 33 \<le> y" by linarith
  have "q / 2 ^ 53 \<le> 1 / 2 ^ 53" using q1 by (simp add: divide_right_mono)
  with y(2) q1 have yu: "y \<le> 1 + 1 / 2 ^ 53" by linarith
  have "\<exists>x. round64 (y * 100) = Fin x \<and> \<bar>x - y * 100\<bar> \<le> y * 100 / 2 ^ 53"
    using yl yu by (intro round64_mid) auto
  then obtain x where x: "round64 (y * 100) = Fin x" "\<bar>x - y * 100\<bar> \<le> y * 100 / 2 ^ 53" by blast
  have d: "js_mul (js_div (Fin (of_nat c)) (Fin (of_nat n))) (Fin 100) = Fin x"
    using n0 y(1) x(1) by (simp add: q_def)
  have "x - 100 * q = (x - y * 100) + 100 * (y - q)" by (simp add: algebra_simps)
  then have "\<bar>x - 100 * q\<bar> \<le> \<bar>x - y * 100\<bar> + \<bar>100 * (y - q)\<bar>"
    by (simp only: abs_triangle_ineq)
  also have "\<bar>100 * (y - q)\<bar> = 100 * \<bar>y - q\<bar>" by (simp only: abs_mult abs_numeral)
  finally have "\<bar>x - 100 * q\<bar> \<le> \<bar>x - y * 100\<bar> + 100 * \<bar>y - q\<bar>" .
  also have "\<dots> \<le> y * 100 / 2 ^ 53 + 100 * (q / 2 ^ 53)"
    using x(2) y(2) by (intro add_mono mult_left_mono) simp_all
  also have "\<dots> \<le> (1 + 1 / 2 ^ 53) * 100 / 2 ^ 53 + 100 * (1 / 2 ^ 53)"
    using yu q1 by (intro add_mono) (simp_all add: divide_right_mono)
  also have "\<dots> \<le> 1 / 10 ^ 13" by simp
  finally have e: "\<bar>x - 100 * q\<bar> \<le> 1 / 10 ^ 13" .
  have y0: "0 < y" using yl by (rule less_le_trans[rotated]) simp
  have "y * 100 / 2 ^ 53 < y * 100" using y0 by simp
  with x(2) have "0 < x" by linarith
  with d e show ?thesis by (auto simp: q_def)
qed

lemma percentageOf_tenths:
  assumes c: "c \<le> n" and n: "0 < n" "n < 2 ^ 32"
  shows "percentageOf c n = js_lit (of_int (percentTenths c n) / 10) \<and>
         0 \<le> percentTenths c n \<and> percentTenths c n \<le> 1000 \<and>
         \<bar>of_int (percentTenths c n) / 10 - 100 * of_nat c / (of_nat n :: rat)\<bar>
           \<le> 1 / 20 + 1 / 10 ^ 13"
proof (cases "c = 0")
  case True
  then show ?thesis using n
    by (simp add: percentageOf_zero percentTenths_zero js_lit_def round64_def)
next
  case False
  then have "0 < c" by simp
  from scaled_ratio[OF this c n(2)] obtain x where
    x: "js_mul (js_div (Fin (of_nat c)) (Fin (of_nat n))) (Fin 100) = Fin x"
    and e: "\<bar>x - 100 * of_nat c / of_nat n\<bar> \<le> 1 / 10 ^ 13" and x0: "0 < x" by blast
  define k where "k = \<lfloor>x * 10 + 1/2\<rfloor>"
  have kt: "percentTenths c n = k"
    by (simp only: percentTenths_def x) (simp add: fin_value_def k_def)
  have "(of_nat c :: rat) / of_nat n \<le> 1" using c n by simp
  then have "100 * (of_nat c :: rat) / of_nat n \<le> 100" by simp
  with e have xu: "x \<le> 100 + 1 / 10 ^ 13" by linarith
  have fl: "of_int k \<le> x * 10 + 1/2" "x * 10 + 1/2 < of_int k + 1"
    unfolding k_def by linarith+
  have "(of_int k :: rat) < 1001" using fl(1) xu by simp
  then have "k < 1001" by linarith
  then have k2: "k \<le> 1000" by simp
  have "(0::rat) < of_int k + 1" using fl(2) x0 by linarith
  then have "0 < k + 1" by linarith
  then have k1: "0 \<le> k" by simp
  have "\<bar>x\<bar> < 10 ^ 21" using x0 xu by simp
  then have "percentageOf c n = js_lit (toFixed1 x)"
    by (simp only: percentageOf_def x) (simp add: parseFloat_toFixed1_def)
  also have "toFixed1 x = of_int k / 10" using x0 by (simp add: toFixed1_def k_def)
  finally have p: "percentageOf c n = js_lit (of_int k / 10)" .
  define r where "r = 100 * of_nat c / (of_nat n :: rat)"
  have "\<bar>of_int k / 10 - x\<bar> \<le> 1 / 20" using fl by linarith
  moreover have "\<bar>x - r\<bar> \<le> 1 / 10000000000000" using e by (simp add: r_def)
  ultimately have "\<bar>of_int k / 10 - r\<bar> \<le> 1 / 20 + 1 / 10000000000000" by linarith
  then have "\<bar>of_int k / 10 - 100 * of_nat c / (of_nat n :: rat)\<bar> \<le> 1 / 20 + 1 / 10 ^ 13"
    by (simp add: r_def)
  with p k1 k2 show ?thesis by (simp add: kt)
qed

lemma js_lit_tenths:
  assumes "0 \<le> k" "k \<le> 1000"
  shows "\<exists>p. js_lit (of_int k / 10) = Fin p \<and> \<bar>p - of_int k / 10\<bar> \<le> 1 / 10 ^ 13"
proof (cases "k = 0")
  case True
  then show ?thesis by (simp add: js_lit_def round64_def)
next
  case False
  with assms have "1 \<le> k" by simp
  then have "(1::rat) \<le> of_int k" by simp
  then have l: "1 / 2 ^ 40 \<le> (of_int k / 10 :: rat)" by simp
  have "(of_int k :: rat) \<le> 1000" using assms(2) by simp
  then have u: "(of_int k / 10 :: rat) \<le> 100" by simp
  then have "(of_int k / 10 :: rat) < 2 ^ 40" by simp
  from round64_mid[OF l this] obtain p where
    p: "round64 (of_int k / 10) = Fin p" "\<bar>p - of_int k / 10\<bar> \<le> of_int k / 10 / 2 ^ 53" by blast
  have "(of_int k / 10 :: rat) / 2 ^ 53 \<le> 100 / 2 ^ 53" using u by (simp add: divide_right_mono)
  also have "\<dots> \<le> 1 / 10 ^ 13" by simp
  finally show ?thesis using p by (auto simp: js_lit_def)
qed

text \<open>Two percentages are equal or well apart, and ordered as their tenths.\<close>

lemma tenths_order:
  assumes a: "js_lit (of_int ka / 10) = Fin pa" "0 \<le> ka" "ka \<le> 1000"
    and b: "js_lit (of_int kb / 10) = Fin pb" "0 \<le> kb" "kb \<le> 1000"
  shows "(pa = pb \<or> 1 / 2 ^ 40 \<le> \<bar>pa - pb\<bar>) \<and> \<bar>pa - pb\<bar> < 2 ^ 40 \<and> (pb < pa) = (kb < ka)
         \<and> (pa = pb) = (ka = kb)"
proof -
  from js_lit_tenths[OF a(2,3)] a(1) have ea: "\<bar>pa - of_int ka / 10\<bar> \<le> 1 / 10 ^ 13" by auto
  from js_lit_tenths[OF b(2,3)] b(1) have eb: "\<bar>pb - of_int kb / 10\<bar> \<le> 1 / 10 ^ 13" by auto
  have e13: "(1::rat) / 10 ^ 13 = 1 / 10000000000000" by simp
  from ea have "\<bar>pa - of_int ka / 10\<bar> \<le> 1 / 10000000000000" by (simp only: e13)
  then have A: "pa \<le> of_int ka / 10 + 1 / 10000000000000" "of_int ka / 10 - 1 / 10000000000000 \<le> pa"
    by linarith+
  from eb have "\<bar>pb - of_int kb / 10\<bar> \<le> 1 / 10000000000000" by (simp only: e13)
  then have B: "pb \<le> of_int kb / 10 + 1 / 10000000000000" "of_int kb / 10 - 1 / 10000000000000 \<le> pb"
    by linarith+
  have ua: "(of_int ka :: rat) \<le> 1000" "(0::rat) \<le> of_int ka" using a by simp_all
  have ub: "(of_int kb :: rat) \<le> 1000" "(0::rat) \<le> of_int kb" using b by simp_all
  consider "ka = kb" | "kb < ka" | "ka < kb" by linarith
  then show ?thesis
  proof cases
    case 1
    then have "pa = pb" using a(1) b(1) by simp
    then show ?thesis using 1 by simp
  next
    case 2
    then have "kb + 1 \<le> ka" by simp
    then have "(of_int kb :: rat) + 1 \<le> of_int ka" by (metis of_int_1 of_int_add of_int_le_iff)
    then have "1 / 20 \<le> pa - pb" "pa - pb \<le> 101" using A B ua ub by linarith+
    then show ?thesis using 2 by (simp add: abs_if)
  next
    case 3
    then have "ka + 1 \<le> kb" by simp
    then have "(of_int ka :: rat) + 1 \<le> of_int kb" by (metis of_int_1 of_int_add of_int_le_iff)
    then have "1 / 20 \<le> pb - pa" "pb - pa \<le> 101" using A B ua ub by linarith+
    then show ?thesis using 3 by (simp add: abs_if)
  qed
qed

subsection \<open>Counts\<close>

lemma set_filteredTicks: "set (filteredTicks m ticks) \<subseteq> set ticks"
proof -
  have "set (map snd (filter P (zip ticks (tl ticks)))) \<subseteq> set ticks" for P
  proof
    fix x assume "x \<in> set (map snd (filter P (zip ticks (tl ticks))))"
    then obtain p where "(p, x) \<in> set (zip ticks (tl ticks))" by auto
    then have x: "x \<in> set (tl ticks)" by (rule set_zip_rightD)
    then have "ticks \<noteq> []" by auto
    then show "x \<in> set ticks" using x by (rule list.set_sel(2))
  qed
  then show ?thesis by (auto simp: filteredTicks_def)
qed

lemma length_filteredTicks: "length (filteredTicks m ticks) \<le> length ticks"
proof -
  have "length (map snd (filter P (zip ticks (tl ticks)))) \<le> length ticks" for P
    using length_filter_le[of P "zip ticks (tl ticks)"] by simp
  then show ?thesis by (auto simp: filteredTicks_def)
qed

lemma sum_list_counts_aux:
  assumes "\<forall>t\<in>set f. digit t < length cs"
  shows "sum_list (foldl (\<lambda>counts tick. counts[digit tick := counts ! digit tick + 1]) cs f)
         = sum_list cs + length f"
  using assms
proof (induction f arbitrary: cs)
  case Nil
  then show ?case by simp
next
  case (Cons t f)
  have d: "digit t < length cs" using Cons.prems by simp
  have "sum_list (cs[digit t := cs ! digit t + 1]) = sum_list cs + 1"
    using d by (simp add: sum_list_update)
  moreover have "\<forall>u\<in>set f. digit u < length (cs[digit t := cs ! digit t + 1])"
    using Cons.prems by simp
  ultimately show ?case using Cons.IH[of "cs[digit t := cs ! digit t + 1]"] by simp
qed

lemma sum_list_digitCounts:
  assumes "\<forall>t\<in>set f. digit t < 10"
  shows "sum_list (digitCounts f) = length f"
  unfolding digitCounts_def using sum_list_counts_aux[of f "replicate 10 0"] assms by simp

lemma digitCounts_le:
  assumes "\<forall>t\<in>set f. digit t < 10" "c \<in> set (digitCounts f)"
  shows "c \<le> length f"
  using member_le_sum_list[OF assms(2)] sum_list_digitCounts[OF assms(1)] by simp

subsection \<open>The order produced by the sort\<close>

text \<open>
  Sorting an ascending list of indices yields the order by key in which equal keys
  keep the ascending order of the indices.
\<close>

lemma insert_by_ordered:
  assumes cmp: "\<And>y. y \<in> set ys \<Longrightarrow> js_gt (cmp x y) (Fin 0) = (f y < f x)"
    and lt: "\<And>y. y \<in> set ys \<Longrightarrow> x < y"
    and srt: "sorted_wrt (key_then_index f) ys"
  shows "sorted_wrt (key_then_index f) (insert_by cmp x ys)"
  using assms
proof (induction ys)
  case Nil
  then show ?case by simp
next
  case (Cons y ys)
  show ?case
  proof (cases "f y < f x")
    case True
    have "sorted_wrt (key_then_index f) (insert_by cmp x ys)"
      using Cons.prems by (intro Cons.IH) auto
    moreover have "key_then_index f y z" if "z \<in> set (insert_by cmp x ys)" for z
      using that True Cons.prems(3) by (auto simp: key_then_index_def)
    ultimately show ?thesis using True Cons.prems(1)[of y] by simp
  next
    case False
    have xy: "key_then_index f x y" using False Cons.prems(2)[of y] by (auto simp: key_then_index_def)
    have "key_then_index f x z" if "z \<in> set ys" for z
    proof -
      have "key_then_index f y z" using Cons.prems(3) that by simp
      then have "f x \<le> f z" using False by (auto simp: key_then_index_def)
      moreover have "x < z" using Cons.prems(2) that by simp
      ultimately show ?thesis by (auto simp: key_then_index_def)
    qed
    then show ?thesis using False xy Cons.prems(1)[of y] Cons.prems(3) by simp
  qed
qed

lemma sort_by_ordered:
  assumes cmp: "\<And>x y. x \<in> set xs \<Longrightarrow> y \<in> set xs \<Longrightarrow> js_gt (cmp x y) (Fin 0) = (f y < f x)"
    and asc: "sorted_wrt (<) xs"
  shows "sorted_wrt (key_then_index f) (sort_by cmp xs)"
  using assms
proof (induction xs)
  case Nil
  then show ?case by (simp add: sort_by_def)
next
  case (Cons x xs)
  have ih: "sorted_wrt (key_then_index f) (sort_by cmp xs)"
    using Cons.prems by (intro Cons.IH) auto
  have "sorted_wrt (key_then_index f) (insert_by cmp x (sort_by cmp xs))"
    using Cons.prems ih by (intro insert_by_ordered) auto
  then show ?case by (simp add: sort_by_def)
qed

lemma distinct_sort_by: "distinct xs \<Longrightarrow> distinct (sort_by cmp xs)"
  by (metis card_distinct distinct_card length_sort_by set_sort_by)

lemma key_then_index_asym: "key_then_index f a b \<Longrightarrow> \<not> key_then_index f b a"
  by (auto simp: key_then_index_def)

text \<open>The element that precedes every other one is first, the next such one second.\<close>

lemma first_of_ordered:
  assumes "sorted_wrt (key_then_index f) ys" "a \<in> set ys"
    and "\<And>x. x \<in> set ys \<Longrightarrow> x \<noteq> a \<Longrightarrow> key_then_index f a x"
  shows "ys ! 0 = a"
proof (rule ccontr)
  assume ne: "ys ! 0 \<noteq> a"
  from assms(2) obtain j where j: "j < length ys" "ys ! j = a" by (auto simp: in_set_conv_nth)
  with ne have "0 < j" by (cases j) auto
  then have "key_then_index f (ys ! 0) a" using assms(1) j by (auto simp: sorted_wrt_iff_nth_less)
  moreover have "ys ! 0 \<in> set ys" using j(1) by (intro nth_mem) auto
  then have "key_then_index f a (ys ! 0)" using assms(3)[of "ys ! 0"] ne by auto
  ultimately show False using key_then_index_asym by blast
qed

lemma second_of_ordered:
  assumes "sorted_wrt (key_then_index f) ys" "distinct ys" "ys ! 0 = a" "b \<in> set ys" "b \<noteq> a"
    and "\<And>x. x \<in> set ys \<Longrightarrow> x \<noteq> a \<Longrightarrow> x \<noteq> b \<Longrightarrow> key_then_index f b x"
  shows "ys ! 1 = b"
proof (rule ccontr)
  assume ne: "ys ! 1 \<noteq> b"
  from assms(4) obtain j where j: "j < length ys" "ys ! j = b" by (auto simp: in_set_conv_nth)
  have "j \<noteq> 0" using assms(3,5) j(2) by (cases "j = 0") auto
  moreover have "j \<noteq> 1" using ne j(2) by (cases "j = 1") auto
  ultimately have j1: "1 < j" by simp
  then have k: "key_then_index f (ys ! 1) b" using assms(1) j by (auto simp: sorted_wrt_iff_nth_less)
  have l: "1 < length ys" "0 < length ys" using j(1) j1 by auto
  have "ys ! 1 \<noteq> ys ! 0"
    using nth_eq_iff_index_eq[OF assms(2) l] by simp
  then have "ys ! 1 \<noteq> a" using assms(3) by simp
  moreover have "ys ! 1 \<in> set ys" using j(1) j1 by (intro nth_mem) auto
  ultimately have "key_then_index f b (ys ! 1)" using assms(6)[of "ys ! 1"] ne by auto
  with k show False using key_then_index_asym by blast
qed

lemma valid_counts_calc:
  assumes "\<forall>t\<in>set ticks. digit t < 10" "length ticks < 2 ^ 32"
  shows "valid_counts (digitCounts (filteredTicks m ticks)) (totalCount (filteredTicks m ticks))"
proof -
  define f where "f = filteredTicks m ticks"
  have d: "\<forall>t\<in>set f. digit t < 10" using assms(1) set_filteredTicks[of m ticks] by (auto simp: f_def)
  have "length f \<le> length ticks" by (simp add: f_def length_filteredTicks)
  then have "totalCount f < 2 ^ 32" using assms(2) by (simp add: totalCount_def)
  moreover have "c \<le> totalCount f" if "c \<in> set (digitCounts f)" for c
    using digitCounts_le[OF d that] by (auto simp: totalCount_def)
  moreover have "0 < totalCount f" by (simp add: totalCount_def)
  ultimately show ?thesis by (simp add: valid_counts_def f_def)
qed

lemma stats_percentage:
  assumes v: "valid_counts counts n" and d: "d < 10"
  defines "k \<equiv> percentTenths (counts ! d) n"
  shows "percentage (unrankedStats counts n ! d) = js_lit (of_int k / 10)"
    and "0 \<le> k" "k \<le> 1000"
    and "percentage (unrankedStats counts n ! d) = Fin (pct_value (unrankedStats counts n) d)"
proof -
  have c: "counts ! d \<le> n" and n: "0 < n" "n < 2 ^ 32" and l: "d < length counts"
    using v d by (auto simp: valid_counts_def)
  have p: "percentage (unrankedStats counts n ! d) = percentageOf (counts ! d) n"
    using l by (simp add: nth_unrankedStats newStat_def)
  from percentageOf_tenths[OF c n] show k: "percentage (unrankedStats counts n ! d) = js_lit (of_int k / 10)"
    and k0: "0 \<le> k" and k1: "k \<le> 1000" by (simp_all add: p k_def)
  from js_lit_tenths[OF k0 k1] obtain q where "js_lit (of_int k / 10) = Fin q" by blast
  then show "percentage (unrankedStats counts n ! d) = Fin (pct_value (unrankedStats counts n) d)"
    by (simp add: pct_value_def k fin_value_def)
qed

lemma stats_compare:
  assumes v: "valid_counts counts n" and a: "a < 10" and b: "b < 10"
  defines "stats \<equiv> unrankedStats counts n"
  shows "js_gt (js_sub (percentage (stats ! a)) (percentage (stats ! b))) (Fin 0)
           = (pct_value stats b < pct_value stats a)"
    and "(pct_value stats b < pct_value stats a) = (percentTenths (counts ! b) n < percentTenths (counts ! a) n)"
    and "(pct_value stats a = pct_value stats b) = (percentTenths (counts ! a) n = percentTenths (counts ! b) n)"
proof -
  note A = stats_percentage[OF v a] and B = stats_percentage[OF v b]
  have la: "js_lit (of_int (percentTenths (counts ! a) n) / 10) = Fin (pct_value stats a)"
    using A(1,4) by (simp add: stats_def)
  have lb: "js_lit (of_int (percentTenths (counts ! b) n) / 10) = Fin (pct_value stats b)"
    using B(1,4) by (simp add: stats_def)
  note T = tenths_order[OF la A(2,3) lb B(2,3)]
  show "js_gt (js_sub (percentage (stats ! a)) (percentage (stats ! b))) (Fin 0)
           = (pct_value stats b < pct_value stats a)"
  proof -
    from T have c1: "pct_value stats a = pct_value stats b
        \<or> 1 / 2 ^ 40 \<le> \<bar>pct_value stats a - pct_value stats b\<bar>"
      and c2: "\<bar>pct_value stats a - pct_value stats b\<bar> < 2 ^ 40" by blast+
    have "percentage (stats ! a) = Fin (pct_value stats a)"
      "percentage (stats ! b) = Fin (pct_value stats b)"
      using A(4) B(4) by (simp_all add: stats_def)
    then show ?thesis using difference_positive_iff[OF c1 c2] by (simp only:)
  qed
  show "(pct_value stats b < pct_value stats a) = (percentTenths (counts ! b) n < percentTenths (counts ! a) n)"
    using T by simp
  show "(pct_value stats a = pct_value stats b) = (percentTenths (counts ! a) n = percentTenths (counts ! b) n)"
    using T by simp
qed

lemma upt_sorted: "sorted_wrt (<) [0..<n]"
  by (simp add: sorted_wrt_iff_nth_less)

lemma sorted_copies:
  assumes v: "valid_counts counts n"
  defines "stats \<equiv> unrankedStats counts n"
  shows "sorted_wrt (key_then_index (\<lambda>d. - pct_value stats d)) (sortedByPercentage stats)"
    and "sorted_wrt (key_then_index (pct_value stats)) (sortedAsc stats)"
    and "set (sortedByPercentage stats) = {0..<10}" "distinct (sortedByPercentage stats)"
    and "set (sortedAsc stats) = {0..<10}" "distinct (sortedAsc stats)"
proof -
  have l: "length stats = 10" using v by (simp add: stats_def valid_counts_def)
  show "sorted_wrt (key_then_index (\<lambda>d. - pct_value stats d)) (sortedByPercentage stats)"
    unfolding sortedByPercentage_def l
  proof (rule sort_by_ordered[OF _ upt_sorted])
    fix x y assume "x \<in> set [0..<10]" "y \<in> set [0..<10]"
    then have "x < 10" "y < 10" by auto
    from stats_compare(1)[OF v this(2,1)]
    show "js_gt (byPercentageDesc stats x y) (Fin 0) = (- pct_value stats y < - pct_value stats x)"
      by (simp add: byPercentageDesc_def stats_def)
  qed
  show "sorted_wrt (key_then_index (pct_value stats)) (sortedAsc stats)"
    unfolding sortedAsc_def l
  proof (rule sort_by_ordered[OF _ upt_sorted])
    fix x y assume "x \<in> set [0..<10]" "y \<in> set [0..<10]"
    then have "x < 10" "y < 10" by auto
    from stats_compare(1)[OF v this]
    show "js_gt (byPercentageAsc stats x y) (Fin 0) = (pct_value stats y < pct_value stats x)"
      by (simp add: byPercentageAsc_def stats_def)
  qed
  show "set (sortedByPercentage stats) = {0..<10}" "distinct (sortedByPercentage stats)"
    "set (sortedAsc stats) = {0..<10}" "distinct (sortedAsc stats)"
    by (simp_all add: sortedByPercentage_def sortedAsc_def l distinct_sort_by)
qed

lemma calculateDigitStats_flags:
  fixes m :: string
  assumes "ticks \<noteq> []" "\<forall>t\<in>set ticks. digit t < 10" "length ticks < 2 ^ 32" and d: "d < 10"
  defines "stats \<equiv> unrankedStats (digitCounts (filteredTicks m ticks)) (totalCount (filteredTicks m ticks))"
  shows "isHighest (calculateDigitStats m ticks ! d) = (d = sortedByPercentage stats ! 0)"
    and "is2ndHighest (calculateDigitStats m ticks ! d) = (d = sortedByPercentage stats ! 1)"
    and "isLowest (calculateDigitStats m ticks ! d) = (d = sortedAsc stats ! 0)"
    and "is2ndLowest (calculateDigitStats m ticks ! d) = (d = sortedAsc stats ! 1)"
    and "percentage (calculateDigitStats m ticks ! d) = percentage (stats ! d)"
proof -
  have c: "calculateDigitStats m ticks = markRanks stats"
    using assms(1) by (simp add: calculateDigitStats_def Let_def stats_def)
  have l: "length stats = 10" by (simp add: stats_def)
  have f: "\<not> isHighest (stats ! d)" "\<not> is2ndHighest (stats ! d)" "\<not> isLowest (stats ! d)"
    "\<not> is2ndLowest (stats ! d)"
    using d by (simp_all add: stats_def nth_unrankedStats newStat_def)
  have l2: "2 \<le> length stats" "d < length stats" using l d by simp_all
  show "isHighest (calculateDigitStats m ticks ! d) = (d = sortedByPercentage stats ! 0)"
    unfolding c markRanks_flags(1)[OF l2] using f by simp
  show "is2ndHighest (calculateDigitStats m ticks ! d) = (d = sortedByPercentage stats ! 1)"
    unfolding c markRanks_flags(2)[OF l2] using f by simp
  show "isLowest (calculateDigitStats m ticks ! d) = (d = sortedAsc stats ! 0)"
    unfolding c markRanks_flags(3)[OF l2] using f by simp
  show "is2ndLowest (calculateDigitStats m ticks ! d) = (d = sortedAsc stats ! 1)"
    unfolding c markRanks_flags(4)[OF l2] using f by simp
  show "percentage (calculateDigitStats m ticks ! d) = percentage (stats ! d)"
    unfolding c markRanks_flags(5)[OF l2] by simp
qed

lemma tenths_gap:
  assumes c: "c \<le> n" "c' \<le> n" and n: "0 < n" "n < 2 ^ 32"
    and gap: "1000 * c' + 2 * n \<le> 1000 * c"
  shows "percentTenths c' n < percentTenths c n"
proof -
  define r where "r = 100 * of_nat c / (of_nat n :: rat)"
  define r' where "r' = 100 * of_nat c' / (of_nat n :: rat)"
  have e13: "(1::rat) / 10 ^ 13 = 1 / 10000000000000" by simp
  from percentageOf_tenths[OF c(1) n]
  have a: "\<bar>of_int (percentTenths c n) / 10 - r\<bar> \<le> 1 / 20 + 1 / 10000000000000"
    by (simp only: r_def e13)
  from percentageOf_tenths[OF c(2) n]
  have b: "\<bar>of_int (percentTenths c' n) / 10 - r'\<bar> \<le> 1 / 20 + 1 / 10000000000000"
    by (simp only: r'_def e13)
  have "(of_nat (1000 * c' + 2 * n) :: rat) \<le> of_nat (1000 * c)" using gap by (simp only: of_nat_le_iff)
  then have "1000 * (of_nat c' :: rat) + 2 * of_nat n \<le> 1000 * of_nat c" by simp
  then have "(1000 * (of_nat c' :: rat) + 2 * of_nat n) / of_nat n \<le> 1000 * of_nat c / of_nat n"
    using n(1) by (simp add: divide_right_mono)
  then have "10 * r' + 2 \<le> 10 * r" using n(1) by (simp add: r_def r'_def add_divide_distrib)
  with a b have "(of_int (percentTenths c' n) :: rat) < of_int (percentTenths c n)" by linarith
  then show ?thesis by simp
qed

lemma digit_cases: "x < 10 \<Longrightarrow> x \<in> {0, 1, 2, 3, 4, 5, 6, 7, 8, 9 :: nat}"
  by auto

text \<open>
  C3. Rank marking is a stable sort by percentage. The digits in descending order of
  percentage, digits of equal percentage in ascending order, give isHighest (first) and
  is2ndHighest (second); the digits in ascending order of percentage, digits of equal
  percentage again in ascending order, give isLowest and is2ndLowest. In particular, for
  the counts 5, 5, 3, 3, 2, 2, 1, 1, 0, 0 digit 0 is isHighest, digit 1 is2ndHighest,
  digit 8 isLowest and digit 9 is2ndLowest.
\<close>

theorem rank_marking_stable:
  fixes selectedMarket :: string and ticks :: "TickData list"
  defines "st \<equiv> calculateDigitStats selectedMarket ticks"
  defines "pv \<equiv> \<lambda>d. fin_value (percentage (st ! d))"
  assumes ne: "ticks \<noteq> []" and dg: "\<forall>t\<in>set ticks. digit t < 10" and ln: "length ticks < 2 ^ 32"
  shows "(\<exists>desc asc.
            set desc = {0..<10} \<and> distinct desc \<and> sorted_wrt (key_then_index (\<lambda>d. - pv d)) desc \<and>
            set asc = {0..<10} \<and> distinct asc \<and> sorted_wrt (key_then_index pv) asc \<and>
            (\<forall>d<10. isHighest (st ! d) = (d = desc ! 0) \<and> is2ndHighest (st ! d) = (d = desc ! 1) \<and>
                     isLowest (st ! d) = (d = asc ! 0) \<and> is2ndLowest (st ! d) = (d = asc ! 1))) \<and>
         (digitCounts (filteredTicks selectedMarket ticks) = [5, 5, 3, 3, 2, 2, 1, 1, 0, 0] \<longrightarrow>
            isHighest (st ! 0) \<and> is2ndHighest (st ! 1) \<and> isLowest (st ! 8) \<and> is2ndLowest (st ! 9))"
proof -
  define counts where "counts = digitCounts (filteredTicks selectedMarket ticks)"
  define n where "n = totalCount (filteredTicks selectedMarket ticks)"
  define stats where "stats = unrankedStats counts n"
  define desc where "desc = sortedByPercentage stats"
  define asc where "asc = sortedAsc stats"
  have v: "valid_counts counts n"
    unfolding counts_def n_def using dg ln by (rule valid_counts_calc)
  note F = calculateDigitStats_flags[OF ne dg ln, of _ selectedMarket,
      folded counts_def n_def stats_def st_def desc_def asc_def]
  have pv: "pv d = pct_value stats d" if "d < 10" for d
    using F(5)[OF that] by (simp add: pv_def pct_value_def)
  note S = sorted_copies[OF v, folded stats_def desc_def asc_def]
  have sd: "sorted_wrt (key_then_index (\<lambda>d. - pv d)) desc"
    using S(1) by (rule sorted_wrt_mono_rel[rotated]) (simp add: S(3) key_then_index_def pv)
  have sa: "sorted_wrt (key_then_index pv) asc"
    using S(2) by (rule sorted_wrt_mono_rel[rotated]) (simp add: S(5) key_then_index_def pv)
  have part1: "\<exists>desc asc.
            set desc = {0..<10} \<and> distinct desc \<and> sorted_wrt (key_then_index (\<lambda>d. - pv d)) desc \<and>
            set asc = {0..<10} \<and> distinct asc \<and> sorted_wrt (key_then_index pv) asc \<and>
            (\<forall>d<10. isHighest (st ! d) = (d = desc ! 0) \<and> is2ndHighest (st ! d) = (d = desc ! 1) \<and>
                     isLowest (st ! d) = (d = asc ! 0) \<and> is2ndLowest (st ! d) = (d = asc ! 1))"
    using S(3,4,5,6) sd sa F(1,2,3,4) by blast
  have part2: "isHighest (st ! 0) \<and> is2ndHighest (st ! 1) \<and> isLowest (st ! 8) \<and> is2ndLowest (st ! 9)"
    if ex: "counts = [5, 5, 3, 3, 2, 2, 1, 1, 0, 0]"
  proof -
    have "sum_list counts = length (filteredTicks selectedMarket ticks)"
      unfolding counts_def using dg set_filteredTicks[of selectedMarket ticks]
      by (intro sum_list_digitCounts) auto
    then have n22: "n = 22" using ex by (simp add: n_def totalCount_def)
    have g: "percentTenths 3 22 < percentTenths 5 22" "percentTenths 2 22 < percentTenths 3 22"
      "percentTenths 1 22 < percentTenths 2 22" "percentTenths 0 22 < percentTenths 1 22"
      by (rule tenths_gap; simp)+
    note C = stats_compare(2,3)[OF v, folded stats_def, unfolded n22 ex]
    have e: "pv 0 = pv 1" "pv 2 = pv 3" "pv 4 = pv 5" "pv 6 = pv 7" "pv 8 = pv 9"
      using C(2)[of 0 1] C(2)[of 2 3] C(2)[of 4 5] C(2)[of 6 7] C(2)[of 8 9] by (simp_all add: pv)
    have l: "pv 2 < pv 0" "pv 4 < pv 2" "pv 6 < pv 4" "pv 8 < pv 6"
      using C(1)[of 0 2] C(1)[of 2 4] C(1)[of 4 6] C(1)[of 6 8] g by (simp_all add: pv)
    have d0: "desc ! 0 = 0"
    proof (rule first_of_ordered[OF sd])
      show "0 \<in> set desc" by (simp add: S(3))
      fix x assume "x \<in> set desc" "x \<noteq> 0"
      then have "x \<in> {1, 2, 3, 4, 5, 6, 7, 8, 9}" using digit_cases[of x] by (auto simp: S(3))
      then show "key_then_index (\<lambda>d. - pv d) 0 x"
        using e l by (auto simp: key_then_index_def)
    qed
    have d1: "desc ! 1 = 1"
    proof (rule second_of_ordered[OF sd S(4) d0])
      show "1 \<in> set desc" by (simp add: S(3))
      show "(1::nat) \<noteq> 0" by simp
      fix x assume "x \<in> set desc" "x \<noteq> 0" "x \<noteq> 1"
      then have "x \<in> {2, 3, 4, 5, 6, 7, 8, 9}" using digit_cases[of x] by (auto simp: S(3))
      then show "key_then_index (\<lambda>d. - pv d) 1 x"
        using e l by (auto simp: key_then_index_def)
    qed
    have a0: "asc ! 0 = 8"
    proof (rule first_of_ordered[OF sa])
      show "8 \<in> set asc" by (simp add: S(5))
      fix x assume "x \<in> set asc" "x \<noteq> 8"
      then have "x \<in> {0, 1, 2, 3, 4, 5, 6, 7, 9}" using digit_cases[of x] by (auto simp: S(5))
      then show "key_then_index pv 8 x"
        using e l by (auto simp: key_then_index_def)
    qed
    have a1: "asc ! 1 = 9"
    proof (rule second_of_ordered[OF sa S(6) a0])
      show "9 \<in> set asc" by (simp add: S(5))
      show "(9::nat) \<noteq> 8" by simp
      fix x assume "x \<in> set asc" "x \<noteq> 8" "x \<noteq> 9"
      then have "x \<in> {0, 1, 2, 3, 4, 5, 6, 7}" using digit_cases[of x] by (auto simp: S(5))
      then show "key_then_index pv 9 x"
        using e l by (auto simp: key_then_index_def)
    qed
    show ?thesis using F(1)[of 0] F(2)[of 1] F(3)[of 8] F(4)[of 9] d0 d1 a0 a1 by simp
  qed
  show ?thesis using part1 part2 by (simp add: counts_def)
qed

lemma digitCounts_ticks22: "digitCounts (filteredTicks ''Circles'' ticks22) = [5, 5, 3, 3, 2, 2, 1, 1, 0, 0]"
  by (simp add: filteredTicks_def digitCounts_def sampleTick_def ticks22_def eval_nat_numeral)

theorem rank_marking_stable_witness:
  "digitCounts (filteredTicks ''Circles'' ticks22) = [5, 5, 3, 3, 2, 2, 1, 1, 0, 0] \<and>
   isHighest (calculateDigitStats ''Circles'' ticks22 ! 0) \<and>
   is2ndHighest (calculateDigitStats ''Circles'' ticks22 ! 1) \<and>
   isLowest (calculateDigitStats ''Circles'' ticks22 ! 8) \<and>
   is2ndLowest (calculateDigitStats ''Circles'' ticks22 ! 9)"
proof -
  have "ticks22 \<noteq> []" "\<forall>t\<in>set ticks22. digit t < 10" "length ticks22 < 2 ^ 32"
    by (simp_all add: ticks22_def sampleTick_def)
  from rank_marking_stable[OF this, of "''Circles''"] digitCounts_ticks22
  show ?thesis by simp
qed

lemma tenths_sum:
  assumes v: "valid_counts counts n" and s: "sum_list counts = n"
  shows "\<bar>(\<Sum>d = 0..<10. percentTenths (counts ! d) n) - 1000\<bar> \<le> 5"
proof -
  define k where "k d = (of_int (percentTenths (counts ! d) n) / 10 :: rat)" for d
  define r where "r d = (100 * of_nat (counts ! d) / of_nat n :: rat)" for d
  have n: "0 < n" "n < 2 ^ 32" and l: "length counts = 10" using v by (auto simp: valid_counts_def)
  have e13: "(1::rat) / 10 ^ 13 = 1 / 10000000000000" by simp
  have each: "\<bar>k d - r d\<bar> \<le> 1 / 20 + 1 / 10000000000000" if "d \<in> {0..<10}" for d
  proof -
    have "counts ! d \<le> n" using v that by (auto simp: valid_counts_def)
    from percentageOf_tenths[OF this n] show ?thesis by (simp only: k_def r_def e13)
  qed
  have "(\<Sum>d = 0..<10. r d) = 100 * (\<Sum>d = 0..<10. of_nat (counts ! d)) / of_nat n"
    by (simp add: r_def sum_divide_distrib sum_distrib_left)
  also have "(\<Sum>d = 0..<10. (of_nat (counts ! d) :: rat)) = of_nat (sum_list counts)"
    using l by (simp add: sum_list_sum_nth)
  also have "100 * (of_nat (sum_list counts) :: rat) / of_nat n = 100" using s n by simp
  finally have rs: "(\<Sum>d = 0..<10. r d) = 100" .
  have "\<bar>(\<Sum>d = 0..<10. k d) - (\<Sum>d = 0..<10. r d)\<bar> = \<bar>\<Sum>d = 0..<10. (k d - r d)\<bar>"
    by (simp add: sum_subtractf)
  also have "\<dots> \<le> (\<Sum>d = 0..<10. \<bar>k d - r d\<bar>)" by (rule sum_abs)
  also have "\<dots> \<le> (\<Sum>d = 0..<(10::nat). 1 / 20 + 1 / 10000000000000)"
    using each by (rule sum_mono)
  also have "\<dots> = 1 / 2 + 1 / 1000000000000" by simp
  finally have "\<bar>(\<Sum>d = 0..<10. k d) - 100\<bar> \<le> 1 / 2 + 1 / 1000000000000" by (simp only: rs)
  moreover have "(\<Sum>d = 0..<10. k d) = of_int (\<Sum>d = 0..<10. percentTenths (counts ! d) n) / 10"
    by (simp add: k_def sum_divide_distrib)
  ultimately have "\<bar>(of_int (\<Sum>d = 0..<10. percentTenths (counts ! d) n) :: rat) - 1000\<bar> < 6"
    by linarith
  then have "\<bar>(\<Sum>d = 0..<10. percentTenths (counts ! d) n) - 1000\<bar> < 6"
    by linarith
  then show ?thesis by simp
qed

lemma length_markRanks [simp]: "length (markRanks stats) = length stats"
  by (simp add: markRanks_def Let_def)

lemma length_calculateDigitStats [simp]: "length (calculateDigitStats m ticks) = 10"
  by (simp add: calculateDigitStats_def Let_def)

lemma filteredTicks_Nil [simp]: "filteredTicks m [] = []"
  by (simp add: filteredTicks_def)

lemma pct_sum_nth:
  assumes "length st = 10"
  shows "pct_sum st = (\<Sum>d = 0..<10. fin_value (percentage (st ! d)))"
proof -
  have "pct_sum st = (\<Sum>d = 0..<length st. map (\<lambda>s. fin_value (percentage s)) st ! d)"
    unfolding pct_sum_def by (subst sum_list_sum_nth) simp
  also have "\<dots> = (\<Sum>d = 0..<length st. fin_value (percentage (st ! d)))"
    by (rule sum.cong) simp_all
  finally show ?thesis using assms by simp
qed

text \<open>
  C2 (as amended). For every sequence of ticks and every filter mode, every one of the
  ten percentages is 0 when the filtered tick count is 0; when it is positive, the ten
  percentages are the doubles nearest to ten one-decimal values whose sum is within 0.5
  of 100 (each is rounded to one decimal, so ten of them can be off by ten times 0.05),
  and the exact sum of the ten doubles is within 0.5 + 1e-12 of 100.
\<close>

theorem percentages_sum_tolerance:
  fixes selectedMarket :: string and ticks :: "TickData list"
  defines "st \<equiv> calculateDigitStats selectedMarket ticks"
  defines "f \<equiv> filteredTicks selectedMarket ticks"
  assumes dg: "\<forall>t\<in>set ticks. digit t < 10" and ln: "length ticks < 2 ^ 32"
  shows "length st = 10 \<and>
         (length f = 0 \<longrightarrow> (\<forall>d<10. percentage (st ! d) = Fin 0)) \<and>
         (0 < length f \<longrightarrow>
            (\<exists>ks. length ks = 10 \<and>
                  (\<forall>d<10. percentage (st ! d) = js_lit (of_int (ks ! d) / 10)) \<and>
                  \<bar>sum_list ks - 1000\<bar> \<le> 5) \<and>
            \<bar>pct_sum st - 100\<bar> \<le> 1 / 2 + 1 / 10 ^ 12)"
proof -
  define counts where "counts = digitCounts f"
  define n where "n = totalCount f"
  define stats where "stats = unrankedStats counts n"
  have v: "valid_counts counts n"
    unfolding counts_def n_def f_def using dg ln by (rule valid_counts_calc)
  have len: "length st = 10" by (simp add: st_def)
  have empty: "percentage (st ! d) = Fin 0" if "length f = 0" "d < 10" for d
  proof (cases "ticks = []")
    case True
    then show ?thesis using that(2) by (simp add: st_def calculateDigitStats_def newStat_def)
  next
    case False
    note F = calculateDigitStats_flags(5)[OF False dg ln that(2), of selectedMarket,
        folded f_def, folded counts_def n_def, folded stats_def st_def]
    have "counts = replicate 10 0" "n = 1" using that(1) by (simp_all add: counts_def n_def digitCounts_def totalCount_def)
    then show ?thesis using F that(2) by (simp add: stats_def nth_unrankedStats newStat_def percentageOf_zero)
  qed
  have full: "(\<exists>ks. length ks = 10 \<and>
                  (\<forall>d<10. percentage (st ! d) = js_lit (of_int (ks ! d) / 10)) \<and>
                  \<bar>sum_list ks - 1000\<bar> \<le> 5) \<and>
            \<bar>pct_sum st - 100\<bar> \<le> 1 / 2 + 1 / 10 ^ 12" if pos: "0 < length f"
  proof -
    have ne: "ticks \<noteq> []" using pos by (auto simp: f_def)
    note F = calculateDigitStats_flags(5)[OF ne dg ln, of _ selectedMarket,
        folded f_def, folded counts_def n_def, folded stats_def st_def]
    have "sum_list counts = length f"
      unfolding counts_def using dg set_filteredTicks[of selectedMarket ticks]
      by (intro sum_list_digitCounts) (auto simp: f_def)
    then have s: "sum_list counts = n" using pos by (simp add: n_def totalCount_def)
    define ks where "ks = map (\<lambda>d. percentTenths (counts ! d) n) [0..<10]"
    have k1: "length ks = 10" by (simp add: ks_def)
    have kd: "ks ! d = percentTenths (counts ! d) n" if "d < 10" for d
      using that by (simp add: ks_def)
    have k2: "percentage (st ! d) = js_lit (of_int (ks ! d) / 10)" if "d < 10" for d
      using F[OF that] stats_percentage(1)[OF v that] kd[OF that] by (simp add: stats_def)
    have "sum_list ks = (\<Sum>d = 0..<10. percentTenths (counts ! d) n)"
      by (simp add: ks_def interv_sum_list_conv_sum_set_nat)
    then have k3: "\<bar>sum_list ks - 1000\<bar> \<le> 5" using tenths_sum[OF v s] by simp
    have e13: "(1::rat) / 10 ^ 13 = 1 / 10000000000000" by simp
    have each: "\<bar>fin_value (percentage (st ! d)) - of_int (ks ! d) / 10\<bar> \<le> 1 / 10000000000000"
      if "d \<in> {0..<10}" for d
    proof -
      have d: "d < 10" using that by simp
      from stats_percentage(2,3)[OF v d] have "0 \<le> ks ! d" "ks ! d \<le> 1000" by (simp_all add: kd[OF d])
      from js_lit_tenths[OF this] obtain p where
        "js_lit (of_int (ks ! d) / 10) = Fin p" "\<bar>p - of_int (ks ! d) / 10\<bar> \<le> 1 / 10 ^ 13" by blast
      then show ?thesis using k2[OF d] by (simp add: fin_value_def)
    qed
    have "\<bar>pct_sum st - (\<Sum>d = 0..<10. (of_int (ks ! d) / 10 :: rat))\<bar>
          = \<bar>\<Sum>d = 0..<10. (fin_value (percentage (st ! d)) - of_int (ks ! d) / 10)\<bar>"
      by (simp add: pct_sum_nth[OF len] sum_subtractf)
    also have "\<dots> \<le> (\<Sum>d = 0..<10. \<bar>fin_value (percentage (st ! d)) - of_int (ks ! d) / 10\<bar>)"
      by (rule sum_abs)
    also have "\<dots> \<le> (\<Sum>d = 0..<(10::nat). 1 / 10000000000000)"
      using each by (rule sum_mono)
    also have "\<dots> = 1 / 1000000000000" by simp
    finally have a: "\<bar>pct_sum st - (\<Sum>d = 0..<10. (of_int (ks ! d) / 10 :: rat))\<bar>
        \<le> 1 / 1000000000000" .
    have "(\<Sum>d = 0..<10. (of_int (ks ! d) / 10 :: rat)) = of_int (\<Sum>d = 0..<10. ks ! d) / 10"
      by (simp add: sum_divide_distrib)
    also have "(\<Sum>d = 0..<10. ks ! d) = sum_list ks" using k1 by (simp add: sum_list_sum_nth)
    finally have b: "(\<Sum>d = 0..<10. (of_int (ks ! d) / 10 :: rat)) = of_int (sum_list ks) / 10" .
    have "\<bar>(of_int (sum_list ks - 1000) :: rat)\<bar> \<le> of_int 5"
      using k3 by (simp only: of_int_abs[symmetric] of_int_le_iff)
    then have "\<bar>(of_int (sum_list ks) :: rat) - 1000\<bar> \<le> 5" by simp
    then have c: "\<bar>(of_int (sum_list ks) :: rat) / 10 - 100\<bar> \<le> 1 / 2" by linarith
    have "\<bar>pct_sum st - 100\<bar> \<le> 1 / 2 + 1 / 1000000000000"
      using a c unfolding b by linarith
    then have "\<bar>pct_sum st - 100\<bar> \<le> 1 / 2 + 1 / 10 ^ 12" by simp
    with k1 k2 k3 show ?thesis by blast
  qed
  show ?thesis using len empty full by blast
qed

lemma ticks6_facts:
  "ticks6 \<noteq> []" "\<forall>t\<in>set ticks6. digit t < 10" "length ticks6 < 2 ^ 32"
  "filteredTicks ''Circles'' ticks6 = ticks6" "length ticks6 = 6"
  "digitCounts ticks6 = [1, 1, 1, 1, 1, 1, 0, 0, 0, 0]"
proof -
  show "ticks6 \<noteq> []" "\<forall>t\<in>set ticks6. digit t < 10" "length ticks6 < 2 ^ 32"
    "filteredTicks ''Circles'' ticks6 = ticks6" "length ticks6 = 6"
    by (simp_all add: ticks6_def sampleTick_def filteredTicks_def)
  show "digitCounts ticks6 = [1, 1, 1, 1, 1, 1, 0, 0, 0, 0]"
    by (simp add: ticks6_def sampleTick_def digitCounts_def eval_nat_numeral)
qed

theorem percentages_sum_tolerance_witness:
  "0 < length (filteredTicks ''Circles'' ticks6) \<and>
   \<bar>pct_sum (calculateDigitStats ''Circles'' ticks6) - 100\<bar> \<le> 1 / 2 + 1 / 10 ^ 12 \<and>
   length (filteredTicks ''Matches'' [sampleTick 3]) = 0 \<and>
   percentage (calculateDigitStats ''Matches'' [sampleTick 3] ! 0) = Fin 0"
proof -
  have a: "0 < length (filteredTicks ''Circles'' ticks6)" by (simp add: ticks6_facts)
  have b: "length (filteredTicks ''Matches'' [sampleTick 3]) = 0" by (simp add: filteredTicks_def)
  have c: "\<forall>t\<in>set [sampleTick 3]. digit t < 10" "length [sampleTick 3] < 2 ^ 32"
    by (simp_all add: sampleTick_def)
  note T1 = percentages_sum_tolerance[OF ticks6_facts(2,3), of "''Circles''",
      THEN conjunct2, THEN conjunct2, THEN mp, OF a, THEN conjunct2]
  note T2 = percentages_sum_tolerance[OF c, of "''Matches''",
      THEN conjunct2, THEN conjunct1, THEN mp, OF b, THEN spec, of 0, THEN mp]
  have "percentage (calculateDigitStats ''Matches'' [sampleTick 3] ! 0) = Fin 0"
    by (rule T2) simp
  with T1 a b show ?thesis by (simp only: simp_thms)
qed

lemma percentTenths_1_6: "percentTenths 1 6 = 167"
proof -
  have "\<bar>of_int (percentTenths 1 6) / 10 - 100 * of_nat 1 / (of_nat 6 :: rat)\<bar> \<le> 1 / 20 + 1 / 10 ^ 13"
    using percentageOf_tenths[of 1 6] by simp
  then have "\<bar>(of_int (percentTenths 1 6) :: rat) / 10 - 100 / 6\<bar> \<le> 1 / 20 + 1 / 10000000000000"
    by simp
  then have "(166 :: rat) < of_int (percentTenths 1 6)" "(of_int (percentTenths 1 6) :: rat) < 168"
    by linarith+
  then have "166 < percentTenths 1 6" "percentTenths 1 6 < 168" by linarith+
  then show ?thesis by simp
qed

theorem percentages_sum_counterexample:
  "0 < length (filteredTicks ''Circles'' ticks6) \<and>
   percentage (calculateDigitStats ''Circles'' ticks6 ! 0) = js_lit (167 / 10) \<and>
   1 / 10 < \<bar>pct_sum (calculateDigitStats ''Circles'' ticks6) - 100\<bar>"
proof -
  define st where "st = calculateDigitStats ''Circles'' ticks6"
  have v: "valid_counts [1, 1, 1, 1, 1, 1, 0, 0, 0, 0] 6" by (simp add: valid_counts_def)
  have pc: "percentage (st ! d) = percentage (unrankedStats [1, 1, 1, 1, 1, 1, 0, 0, 0, 0] 6 ! d)"
    if "d < 10" for d
    using calculateDigitStats_flags(5)[OF ticks6_facts(1,2,3) that, of "''Circles''"]
    by (simp add: st_def ticks6_facts totalCount_def)
  obtain p where p: "js_lit (of_int 167 / 10) = Fin p" "\<bar>p - of_int 167 / 10\<bar> \<le> 1 / 10 ^ 13"
    using js_lit_tenths[of 167] by auto
  have hi: "percentage (st ! d) = Fin p" if "d \<in> {0, 1, 2, 3, 4, 5}" for d
  proof -
    have d: "d < 10" "[1, 1, 1, 1, 1, 1, 0, 0, 0, 0] ! d = (1::nat)" using that by auto
    have "percentage (st ! d) = js_lit (of_int (percentTenths 1 6) / 10)"
      using pc[OF d(1)] stats_percentage(1)[OF v d(1)] by (simp only: d(2))
    then show ?thesis using p(1) by (simp only: percentTenths_1_6)
  qed
  have lo: "percentage (st ! d) = Fin 0" if "d \<in> {6, 7, 8, 9}" for d
  proof -
    have d: "d < 10" "[1, 1, 1, 1, 1, 1, 0, 0, 0, 0] ! d = (0::nat)" using that by auto
    have "percentage (unrankedStats [1, 1, 1, 1, 1, 1, 0, 0, 0, 0] 6 ! d) = percentageOf 0 6"
      using d(1) by (simp only: nth_unrankedStats length_Cons list.size d(2)) (simp add: nth_unrankedStats newStat_def d(2))
    then show ?thesis using pc[OF d(1)] by (simp add: percentageOf_zero)
  qed
  have "pct_sum st = (\<Sum>d = 0..<10. fin_value (percentage (st ! d)))"
    by (rule pct_sum_nth) (simp add: st_def)
  also have "{0..<10::nat} = {0, 1, 2, 3, 4, 5, 6, 7, 8, 9}" by auto
  finally have "pct_sum st = 6 * p" using hi lo by (simp add: fin_value_def)
  moreover have "\<bar>p - 167 / 10\<bar> \<le> 1 / 10000000000000" using p(2) by simp
  ultimately have "1 / 10 < \<bar>pct_sum st - 100\<bar>" by linarith
  moreover have "percentage (st ! 0) = js_lit (167 / 10)" using hi[of 0] p(1) by simp
  ultimately show ?thesis by (simp add: st_def ticks6_facts)
qed

section \<open>The digit extractor\<close>

lemma of_char_signs: "of_char (CHR ''-'') = (45::nat)" "of_char (CHR ''+'') = (43::nat)"
  by simp_all

lemma parseInt_digit:
  assumes "48 \<le> (of_char c :: nat)" "(of_char c :: nat) \<le> 57"
  shows "parseInt [c] = Fin (of_nat (of_char c - 48))"
proof -
  define n where "n = (of_char c :: nat)"
  have n: "48 \<le> n" "n \<le> 57" using assms by (simp_all add: n_def)
  have ws: "\<not> is_ws c" using n by (auto simp: is_ws_def n_def[symmetric])
  have sg: "c \<noteq> CHR ''-''" "c \<noteq> CHR ''+''" using n of_char_signs by (auto simp: n_def)
  have d: "digit_of_char 10 c = Some (n - 48)"
    using n by (simp add: digit_of_char_def n_def[symmetric] Let_def)
  have "\<bar>int (n - 48)\<bar> < 2 ^ 53" using n by simp
  from round64_of_int[OF this] have r: "round64 (of_int (int (n - 48))) = Fin (of_nat (n - 48))"
    by simp
  show ?thesis
    using ws sg d r by (simp add: parseInt_def Let_def digits_value_def n_def[symmetric])
qed

lemma parseInt_no_digit:
  assumes "\<not> (48 \<le> (of_char c :: nat) \<and> (of_char c :: nat) \<le> 57)"
  shows "parseInt [c] = NaN"
proof -
  define n where "n = (of_char c :: nat)"
  have d: "digit_of_char 10 c = None"
    using assms by (auto simp: digit_of_char_def n_def[symmetric] Let_def)
  have d2: "digit_of_char 10 (CHR ''-'') = None" "digit_of_char 10 (CHR ''+'') = None"
    by (simp_all add: digit_of_char_def)
  show ?thesis
    using d by (cases "is_ws c") (auto simp: parseInt_def Let_def)
qed

lemma extractDigit_string:
  "js_or (parseInt (lastChar str)) (Fin 0) = Fin (of_nat (last_character_digit str))"
proof (cases "str = []")
  case True
  then show ?thesis
    by (simp add: lastChar_def last_character_digit_def parseInt_def js_or_def)
next
  case False
  show ?thesis
  proof (cases "48 \<le> (of_char (last str) :: nat) \<and> (of_char (last str) :: nat) \<le> 57")
    case True
    then show ?thesis
      using False parseInt_digit[of "last str"]
      by (simp add: lastChar_def last_character_digit_def js_or_def)
  next
    case no: False
    then have "last_character_digit str = 0" by (auto simp: last_character_digit_def)
    then show ?thesis
      using False parseInt_no_digit[OF no]
      by (simp add: lastChar_def js_or_def)
  qed
qed

lemma last_character_digit_le: "last_character_digit str \<le> 9"
  by (auto simp: last_character_digit_def)

lemma upt_1_18: "[1..<18] = [1, 2, 3, 4, 5, 6, 7, 8, 9, 10, 11, 12, 13, 14, 15, 16, 17]"
  by (simp add: upt_rec)

lemma lit_7054_231: "js_lit (7054231/1000) = Fin (242381531547435/34359738368)"
  unfolding js_lit_def using round64_eqI[of "12" "7054231/1000" 7756209009517920] by simp

lemma r64_7054_231_0: "round64 (35271/5) = Fin (7756174924657459/1099511627776)"
  using round64_eqI[of "12" "35271/5" 7756174924657459] by simp

lemma r64_7054_231_1: "round64 (70543/10) = Fin (7756284875820237/1099511627776)"
  using round64_eqI[of "12" "70543/10" 7756284875820237] by simp

lemma r64_7054_231_2: "round64 (705423/100) = Fin (1939051977501573/274877906944)"
  using round64_eqI[of "12" "705423/100" 7756207910006292] by simp

lemma r64_7054_231_3: "round64 (176356/25) = Fin (3878109452561285/549755813888)"
  using round64_eqI[of "12" "176356/25" 7756218905122570] by simp

lemma r64_7054_231_5: "round64 (7054231/1000) = Fin (242381531547435/34359738368)"
  using round64_eqI[of "12" "7054231/1000" 7756209009517920] by simp

lemma decimal_7054: "decimal 7054 = ''7054''"
  by (simp add: decimal.simps digit_char_def)

lemma decimal_7054231: "decimal 7054231 = ''7054231''"
  by (simp add: decimal.simps digit_char_def)

lemma exponent_7054_231: "decimal_exponent (242381531547435/34359738368) = 4"
  by (simp add: decimal_exponent_def decimal_7054)

lemma digits_7054_231:
  "digits_at (242381531547435/34359738368) 4 1 = None"
  "digits_at (242381531547435/34359738368) 4 2 = None"
  "digits_at (242381531547435/34359738368) 4 3 = None"
  "digits_at (242381531547435/34359738368) 4 4 = None"
  "digits_at (242381531547435/34359738368) 4 5 = None"
  "digits_at (242381531547435/34359738368) 4 6 = None"
  "digits_at (242381531547435/34359738368) 4 7 = Some 7054231"
  by (simp_all add: digits_at_def Let_def r64_7054_231_0 r64_7054_231_1 r64_7054_231_2
      r64_7054_231_3 r64_7054_231_5)

lemma shortest_7054_231: "shortest_digits (242381531547435/34359738368) = (7054231, 7, 4)"
  unfolding shortest_digits_def exponent_7054_231 upt_1_18 Let_def
  using digits_7054_231 by (simp del: One_nat_def)

lemma toString_7054_231: "numberToString (js_lit (7054231/1000)) = ''7054.231''"
  by (simp add: lit_7054_231 positive_toString_def shortest_7054_231 decimal_7054231)

lemma toString_100: "numberToString (js_lit 100) = ''100''"
proof -
  have e: "decimal_exponent 100 = 3"
    by (simp add: decimal_exponent_def decimal.simps digit_char_def)
  have d: "digits_at 100 3 1 = Some 1"
    by (simp add: digits_at_def Let_def)
  have s: "shortest_digits 100 = (1, 1, 3)"
    unfolding shortest_digits_def e upt_1_18 Let_def using d by (simp del: One_nat_def)
  show ?thesis
    by (simp add: lit_100 positive_toString_def s decimal.simps digit_char_def numeral_2_eq_2)
qed

text \<open>
  C4. For every price, \<open>extractDigit\<close> returns the last character of the decimal string
  of the price read as an integer 0 to 9, and 0 when that character is not a digit;
  7054.231 yields 1 and 100.00 yields 0. The function is total.
\<close>

theorem extractDigit_last_character:
  "extractDigit px = Fin (of_nat (last_character_digit (numberToString px))) \<and>
   last_character_digit (numberToString px) \<le> 9 \<and>
   numberToString (js_lit (7054231/1000)) = ''7054.231'' \<and>
   extractDigit (js_lit (7054231/1000)) = Fin 1 \<and>
   numberToString (js_lit 100) = ''100'' \<and>
   extractDigit (js_lit 100) = Fin 0"
proof -
  have g: "extractDigit p = Fin (of_nat (last_character_digit (numberToString p)))" for p
    unfolding extractDigit_def Let_def by (rule extractDigit_string)
  have "last_character_digit ''7054.231'' = 1" "last_character_digit ''100'' = 0"
    by (simp_all add: last_character_digit_def)
  then show ?thesis
    using g[of px] g[of "js_lit (7054231/1000)"] g[of "js_lit 100"]
      last_character_digit_le[of "numberToString px"]
    by (simp add: toString_7054_231 toString_100)
qed

theorem extractDigit_last_character_witness:
  "extractDigit NaN = Fin 0 \<and> extractDigit PosInf = Fin 0 \<and>
   last_character_digit (numberToString (js_lit 100)) = 0"
  using extractDigit_last_character[of NaN] extractDigit_last_character[of PosInf]
    extractDigit_last_character[of "js_lit 100"]
  by (simp add: last_character_digit_def)


section \<open>The feed client: states and outstanding requests\<close>

lemma length_settle [simp]: "length (promises (settle i r st)) = length (promises st)"
  by (simp add: settle_def)

lemma settle_fields [simp]:
  "subscriptions (settle i r st) = subscriptions st" "timers (settle i r st) = timers st"
  "outbox (settle i r st) = outbox st" "ws (settle i r st) = ws st"
  "reconnectAttempts (settle i r st) = reconnectAttempts st"
  "maxReconnectAttempts (settle i r st) = maxReconnectAttempts st"
  "reconnectDelay (settle i r st) = reconnectDelay st"
  by (simp_all add: settle_def)

lemma settle_nth:
  "promises (settle i r st) ! j =
     (if j = i \<and> i < length (promises st) \<and> promises st ! i = Pending then r else promises st ! j)"
  by (simp add: settle_def)

lemma settle_other: "j \<noteq> i \<Longrightarrow> promises (settle i r st) ! j = promises st ! j"
  by (simp add: settle_nth)

lemma settle_settled: "promises st ! j \<noteq> Pending \<Longrightarrow> promises (settle i r st) ! j = promises st ! j"
  by (auto simp: settle_nth)

subsection \<open>A settled promise stays as it is\<close>


lemma onmessage_induct:
  assumes "\<And>key st. P st \<Longrightarrow> P (dispatch key m st)" "P st"
  shows "P (onmessage m st)"
  using assms by (auto simp: onmessage_def Let_def split: inbound.splits option.splits)




subsection \<open>Reachable states are well formed\<close>

lemma wf_new_api: "wf_api new_api"
  by (simp add: wf_api_def new_api_def)

lemma wf_dispatch: "wf_api st \<Longrightarrow> wf_api (dispatch key m st)"
  by (auto simp: wf_api_def dispatch_def invoke_def split: option.splits callback.splits if_splits)

lemma wf_reconnect: "wf_api st \<Longrightarrow> wf_api (reconnect st)"
  by (simp add: wf_api_def reconnect_def)

lemma wf_onclose: "wf_api st \<Longrightarrow> wf_api (onclose st)"
  unfolding onclose_def by (rule wf_reconnect) (simp add: wf_api_def)

lemma wf_onopen: "wf_api st \<Longrightarrow> wf_api (onopen st)"
  by (simp add: wf_api_def onopen_def)

lemma wf_subscribeToTicks: "wf_api st \<Longrightarrow> wf_api (fst (subscribeToTicks s cb st))"
  by (simp add: wf_api_def subscribeToTicks_def Let_def)

lemma wf_unsubscribe: "wf_api st \<Longrightarrow> wf_api (unsubscribe k st)"
  by (simp add: wf_api_def unsubscribe_def Let_def)

lemma wf_settle: "wf_api st \<Longrightarrow> wf_api (settle i r st)"
  by (simp add: wf_api_def)

lemma wf_getTicksHistory:
  assumes "wf_api st"
  shows "wf_api (getTicksHistory s cnt st)"
proof -
  define st1 where "st1 = st\<lparr>promises := promises st @ [Pending]\<rparr>"
  have w1: "wf_api st1" using assms by (fastforce simp: wf_api_def st1_def less_Suc_eq)
  have l1: "length (promises st) < length (promises st1)" by (simp add: st1_def)
  define k where "k = history_key s"
  have "wf_api (st1\<lparr>subscriptions := (subscriptions st1)(k \<mapsto> HistoryCallback (length (promises st)) k),
              outbox := outbox st1 @ [TicksHistory s cnt k],
              timers := timers st1 @ [(10000, HistoryTimeout (length (promises st)) k)]\<rparr>)"
    using w1 l1 unfolding wf_api_def by (simp add: fun_upd_def)
  then show ?thesis
    using w1 by (simp add: getTicksHistory_def Let_def st1_def[symmetric] k_def[symmetric] wf_settle)
qed

lemma wf_fire: 
  assumes w: "wf_api st"
  shows "wf_api (fire t st)"
proof (cases "find (\<lambda>p. snd p = t) (timers st)")
  case None
  then show ?thesis using w by (simp add: fire_def)
next
  case (Some p)
  define st1 where "st1 = st\<lparr>timers := remove1 p (timers st)\<rparr>"
  have "set (remove1 p (timers st)) \<subseteq> set (timers st)" by (rule set_remove1_subset)
  then have w1: "wf_api st1"
    using w unfolding wf_api_def st1_def by (simp add: subset_iff) blast
  have "wf_api (run_timer t st1)"
  proof (cases t)
    case Reconnect
    then show ?thesis using w1 by (simp add: run_timer_def connect_def wf_api_def)
  next
    case (HistoryTimeout i r)
    have "wf_api (st1\<lparr>subscriptions := (subscriptions st1)(r := None)\<rparr>)"
      using w1 unfolding wf_api_def by (simp add: fun_upd_def) 
    then show ?thesis using w1 HistoryTimeout by (simp add: run_timer_def wf_settle)
  qed
  then show ?thesis using Some by (simp add: fire_def st1_def)
qed

lemma wf_step: "wf_api (step st e)" if "wf_api st"
proof (cases e)
  case (Received m)
  have "wf_api (onmessage m st)"
    by (rule onmessage_induct[where P = wf_api]) (simp_all add: wf_dispatch that)
  then show ?thesis using Received by simp
next
  case Opened then show ?thesis using that by (simp add: wf_onopen)
next
  case Closed then show ?thesis using that by (simp add: wf_onclose)
next
  case Failed then show ?thesis using that by simp
next
  case (Fired t) then show ?thesis using that by (simp add: wf_fire)
next
  case (CallHistory s cnt) then show ?thesis using that by (simp add: wf_getTicksHistory)
next
  case (CallSubscribe s cb) then show ?thesis using that by (simp add: wf_subscribeToTicks)
next
  case (CallUnsubscribe k) then show ?thesis using that by (simp add: wf_unsubscribe)
qed

lemma wf_run: "wf_api st \<Longrightarrow> wf_api (run st evs)"
proof (induction evs arbitrary: st)
  case Nil
  then show ?case by (simp add: run_def)
next
  case (Cons e evs)
  have "wf_api (step st e)" using Cons.prems by (rule wf_step)
  from Cons.IH[OF this] show ?case by (simp add: run_def)
qed

text \<open>Every state that the client reaches from its construction is such a state.\<close>

lemma wf_reachable: "wf_api (run (connect throws new_api) evs)"
proof (rule wf_run)
  have "wf_api (new_api\<lparr>ws := Some CONNECTING\<rparr>)" by (simp add: wf_api_def new_api_def)
  then show "wf_api (connect throws new_api)"
    using wf_reconnect[OF wf_new_api] by (simp add: connect_def)
qed


subsection \<open>A pending history request\<close>

lemma awaiting_wf: "awaiting i k st \<Longrightarrow> wf_api st"
  by (simp add: awaiting_def)




























section \<open>The feed client: history requests\<close>






text \<open>
  Two requests for the same symbol share one request id: the second call replaces the
  callback of the first, the timeout of the first call removes the callback of the
  second, and the promise of the second call is left pending with nothing that could
  still settle it.
\<close>

lemma overlapping_history_calls:
  "promises (run connected_api
      [CallHistory ''R_10'' (Fin 1000), CallHistory ''R_10'' (Fin 1000),
       Fired (HistoryTimeout 0 (history_key ''R_10'')),
       Fired (HistoryTimeout 1 (history_key ''R_10''))])
     = [Rejected (Error ''Request timeout''), Pending] \<and>
   timers (run connected_api
      [CallHistory ''R_10'' (Fin 1000), CallHistory ''R_10'' (Fin 1000),
       Fired (HistoryTimeout 0 (history_key ''R_10'')),
       Fired (HistoryTimeout 1 (history_key ''R_10''))]) = []"
  by (simp add: run_def connected_api_def onopen_def connect_def new_api_def getTicksHistory_def
      Let_def not_connected_def invalid_symbol_def fire_def run_timer_def settle_def history_key_def)


section \<open>The feed client: reconnection\<close>

lemma onclose_retry:
  assumes "reconnectAttempts st < maxReconnectAttempts st"
  shows "onclose st = st\<lparr>ws := Some CLOSED, reconnectAttempts := reconnectAttempts st + 1,
           timers := timers st @ [(reconnectDelay st * (reconnectAttempts st + 1), Reconnect)]\<rparr>"
  using assms by (simp add: onclose_def reconnect_def)

lemma onclose_exhausted:
  assumes "maxReconnectAttempts st \<le> reconnectAttempts st"
  shows "onclose st = st\<lparr>ws := Some CLOSED\<rparr>"
  using assms by (simp add: onclose_def reconnect_def)

lemma fire_reconnect_only:
  "timers st = [(d, Reconnect)] \<Longrightarrow> fire Reconnect st = st\<lparr>timers := [], ws := Some CONNECTING\<rparr>"
  by (simp add: fire_def run_timer_def connect_def)

text \<open>
  C7 (as amended). When the socket closes, the client retries after a delay of
  \<open>reconnectDelay\<close> times the number of the attempt: three consecutive failures wait 1, 2
  and 3 times the base delay. A successful connection resets the attempt counter to
  zero. Once the counter has reached \<open>maxReconnectAttempts\<close> a close sets no timer, and
  a call of \<open>subscribeToTicks\<close> fails with the error \<open>WebSocket not connected\<close>, the
  error of every call on a socket that is not open.
\<close>

theorem reconnect_linear_backoff:
  fixes st :: api_state
  shows
   "(reconnectAttempts st = 0 \<and> 3 \<le> maxReconnectAttempts st \<and> timers st = [] \<longrightarrow>
       timers (run st [Closed]) = [(reconnectDelay st * 1, Reconnect)] \<and>
       timers (run st [Closed, Fired Reconnect, Closed]) = [(reconnectDelay st * 2, Reconnect)] \<and>
       timers (run st [Closed, Fired Reconnect, Closed, Fired Reconnect, Closed])
         = [(reconnectDelay st * 3, Reconnect)]) \<and>
    (reconnectAttempts st < maxReconnectAttempts st \<longrightarrow>
       timers (onclose st) = timers st @ [(reconnectDelay st * (reconnectAttempts st + 1), Reconnect)] \<and>
       reconnectAttempts (onclose st) = reconnectAttempts st + 1) \<and>
    reconnectAttempts (onopen st) = 0 \<and>
    (maxReconnectAttempts st \<le> reconnectAttempts st \<longrightarrow>
       timers (onclose st) = timers st \<and> reconnectAttempts (onclose st) = reconnectAttempts st \<and>
       not_connected (onclose st)) \<and>
    (not_connected st \<longrightarrow> subscribeToTicks s cb st = (st, Inl (Error ''WebSocket not connected'')))"
proof -
  have p1: "timers (run st [Closed]) = [(reconnectDelay st * 1, Reconnect)] \<and>
       timers (run st [Closed, Fired Reconnect, Closed]) = [(reconnectDelay st * 2, Reconnect)] \<and>
       timers (run st [Closed, Fired Reconnect, Closed, Fired Reconnect, Closed])
         = [(reconnectDelay st * 3, Reconnect)]"
    if h: "reconnectAttempts st = 0" "3 \<le> maxReconnectAttempts st" "timers st = []"
  proof -
    define b where "b = reconnectDelay st"
    define s1 where "s1 = onclose st"
    have s1: "s1 = st\<lparr>ws := Some CLOSED, reconnectAttempts := 1, timers := [(b * 1, Reconnect)]\<rparr>"
      unfolding s1_def using h by (subst onclose_retry) (simp_all add: b_def)
    define s2 where "s2 = onclose (fire Reconnect s1)"
    have f1: "fire Reconnect s1 = st\<lparr>ws := Some CONNECTING, reconnectAttempts := 1, timers := []\<rparr>"
      by (subst fire_reconnect_only[of _ "b * 1"]) (simp_all add: s1)
    have s2: "s2 = st\<lparr>ws := Some CLOSED, reconnectAttempts := 2, timers := [(b * 2, Reconnect)]\<rparr>"
      unfolding s2_def f1 using h by (subst onclose_retry) (simp_all add: b_def)
    define s3 where "s3 = onclose (fire Reconnect s2)"
    have f2: "fire Reconnect s2 = st\<lparr>ws := Some CONNECTING, reconnectAttempts := 2, timers := []\<rparr>"
      by (subst fire_reconnect_only[of _ "b * 2"]) (simp_all add: s2)
    have s3: "s3 = st\<lparr>ws := Some CLOSED, reconnectAttempts := 3, timers := [(b * 3, Reconnect)]\<rparr>"
      unfolding s3_def f2 using h by (subst onclose_retry) (simp_all add: b_def)
    have "run st [Closed] = s1" "run st [Closed, Fired Reconnect, Closed] = s2"
      "run st [Closed, Fired Reconnect, Closed, Fired Reconnect, Closed] = s3"
      by (simp_all add: run_def s1_def s2_def s3_def)
    then show ?thesis by (simp add: s1 s2 s3 b_def)
  qed
  have p2: "timers (onclose st) = timers st @ [(reconnectDelay st * (reconnectAttempts st + 1), Reconnect)] \<and>
       reconnectAttempts (onclose st) = reconnectAttempts st + 1"
    if "reconnectAttempts st < maxReconnectAttempts st"
    by (simp add: onclose_retry[OF that])
  have p3: "reconnectAttempts (onopen st) = 0" by (simp add: onopen_def)
  have p4: "timers (onclose st) = timers st \<and> reconnectAttempts (onclose st) = reconnectAttempts st \<and>
       not_connected (onclose st)" if "maxReconnectAttempts st \<le> reconnectAttempts st"
    by (simp add: onclose_exhausted[OF that] not_connected_def)
  have p5: "subscribeToTicks s cb st = (st, Inl (Error ''WebSocket not connected''))"
    if "not_connected st"
    using that by (simp add: subscribeToTicks_def)
  show ?thesis using p1 p2 p3 p4 p5 by blast
qed

lemma connected_api_eq:
  "connected_api = new_api\<lparr>ws := Some OPEN\<rparr>"
  by (simp add: connected_api_def onopen_def connect_def new_api_def)

lemma exhausted_api_eq:
  "exhausted_api = new_api\<lparr>ws := Some CLOSED, reconnectAttempts := 5\<rparr>"
  by (simp add: exhausted_api_def run_def connected_api_eq onclose_def reconnect_def fire_def
      run_timer_def connect_def new_api_def)

theorem reconnect_linear_backoff_witness:
  "timers (run connected_api [Closed]) = [(1000, Reconnect)] \<and>
   timers (run connected_api [Closed, Fired Reconnect, Closed]) = [(2000, Reconnect)] \<and>
   timers (run connected_api [Closed, Fired Reconnect, Closed, Fired Reconnect, Closed])
     = [(3000, Reconnect)] \<and>
   reconnectAttempts (onclose connected_api) = 1 \<and>
   timers (onclose exhausted_api) = [] \<and>
   subscribeToTicks ''R_10'' 0 exhausted_api = (exhausted_api, Inl (Error ''WebSocket not connected''))"
proof -
  have a: "reconnectAttempts connected_api = 0 \<and> 3 \<le> maxReconnectAttempts connected_api \<and>
      timers connected_api = []" "reconnectDelay connected_api = 1000"
    "reconnectAttempts connected_api < maxReconnectAttempts connected_api"
    by (simp_all add: connected_api_eq new_api_def)
  have b: "maxReconnectAttempts exhausted_api \<le> reconnectAttempts exhausted_api"
    "not_connected exhausted_api" "timers exhausted_api = []"
    by (simp_all add: exhausted_api_eq new_api_def not_connected_def)
  note T = reconnect_linear_backoff[of connected_api]
  note U = reconnect_linear_backoff[of exhausted_api "''R_10''" 0]
  from T[THEN conjunct1, THEN mp, OF a(1)] T[THEN conjunct2, THEN conjunct1, THEN mp, OF a(3)]
    U[THEN conjunct2, THEN conjunct2, THEN conjunct2, THEN conjunct1, THEN mp, OF b(1)]
    U[THEN conjunct2, THEN conjunct2, THEN conjunct2, THEN conjunct2, THEN mp, OF b(2)]
  show ?thesis by (simp add: a(1,2) b(3))
qed

theorem subscribe_after_exhaustion_counterexample:
  "reconnectAttempts exhausted_api = maxReconnectAttempts exhausted_api \<and>
   timers exhausted_api = [] \<and>
   snd (subscribeToTicks ''R_10'' 0 exhausted_api) = Inl (Error ''WebSocket not connected'') \<and>
   snd (subscribeToTicks ''R_10'' 0 (connect False new_api)) = Inl (Error ''WebSocket not connected'')"
  by (simp add: exhausted_api_eq subscribeToTicks_def not_connected_def connect_def new_api_def)

end
